theory Spec2Isabelle
  imports Main "HOL-Library.Monad_Syntax"
begin

section \<open>AVL tree (src/src/avl_tree.py)\<close>

text \<open>
  An AVL node owns its two children and has no parent link, so the linked structure is a
  tree value: \<open>ALeaf\<close> is Python's \<open>None\<close>, \<open>ANode l k h r\<close> is an \<open>AVLNode\<close> with
  fields \<open>left\<close>, \<open>key\<close>, \<open>height\<close>, \<open>right\<close>. A result \<open>None\<close> of an operation
  stands for the \<open>AttributeError\<close> Python raises when a field of \<open>None\<close> is read.
\<close>

datatype avl = ALeaf | ANode avl int int avl

record avl_tree =
  avl_root :: avl
  avl_size :: int

definition avl_init :: avl_tree where
  "avl_init = \<lparr>avl_root = ALeaf, avl_size = 0\<rparr>"

fun get_height :: "avl \<Rightarrow> int" where
  "get_height ALeaf = 0"
| "get_height (ANode l k h r) = h"

fun get_balance :: "avl \<Rightarrow> int" where
  "get_balance ALeaf = 0"
| "get_balance (ANode l k h r) = get_height l - get_height r"

fun update_height :: "avl \<Rightarrow> avl" where
  "update_height ALeaf = ALeaf"
| "update_height (ANode l k h r) = ANode l k (1 + max (get_height l) (get_height r)) r"

text \<open>\<open>node.key\<close>, \<open>node.left\<close>, \<open>node.right\<close>: reading a field of \<open>None\<close> raises.\<close>

fun avl_key :: "avl \<Rightarrow> int option" where
  "avl_key ALeaf = None"
| "avl_key (ANode l k h r) = Some k"

fun avl_left :: "avl \<Rightarrow> avl option" where
  "avl_left ALeaf = None"
| "avl_left (ANode l k h r) = Some l"

fun avl_right :: "avl \<Rightarrow> avl option" where
  "avl_right ALeaf = None"
| "avl_right (ANode l k h r) = Some r"

fun avl_set_left :: "avl \<Rightarrow> avl \<Rightarrow> avl option" where
  "avl_set_left ALeaf l' = None"
| "avl_set_left (ANode l k h r) l' = Some (ANode l' k h r)"

fun avl_set_right :: "avl \<Rightarrow> avl \<Rightarrow> avl option" where
  "avl_set_right ALeaf r' = None"
| "avl_set_right (ANode l k h r) r' = Some (ANode l k h r')"

fun avl_set_key :: "avl \<Rightarrow> int \<Rightarrow> avl option" where
  "avl_set_key ALeaf k' = None"
| "avl_set_key (ANode l k h r) k' = Some (ANode l k' h r)"

text \<open>\<open>rotate_right(z)\<close>: \<open>y = z.left; T3 = y.right; y.right = z; z.left = T3\<close>, then the
  heights of \<open>z\<close> and \<open>y\<close> are recomputed, in this order; \<open>y\<close> is returned.\<close>

definition avl_rotate_right :: "avl \<Rightarrow> avl option" where
  "avl_rotate_right z = do {
     y \<leftarrow> avl_left z;
     T3 \<leftarrow> avl_right y;
     z \<leftarrow> avl_set_left z T3;
     let z = update_height z;
     y \<leftarrow> avl_set_right y z;
     Some (update_height y)
   }"

definition avl_rotate_left :: "avl \<Rightarrow> avl option" where
  "avl_rotate_left z = do {
     y \<leftarrow> avl_right z;
     T2 \<leftarrow> avl_left y;
     z \<leftarrow> avl_set_right z T2;
     let z = update_height z;
     y \<leftarrow> avl_set_left y z;
     Some (update_height y)
   }"

text \<open>Python's \<open>a and b\<close> where evaluating \<open>b\<close> may raise: \<open>b\<close> is evaluated only if
  \<open>a\<close> holds.\<close>

definition py_and :: "bool \<Rightarrow> bool option \<Rightarrow> bool option" where
  "py_and a b = (if a then b else Some False)"

text \<open>Lines 139--163 of \<open>_insert_helper\<close>: the height update and the four rotation cases,
  in the order of the source.\<close>

definition insert_rebalance :: "avl \<Rightarrow> int \<Rightarrow> avl option" where
  "insert_rebalance node0 key = do {
     let node = update_height node0;
     let balance = get_balance node;
     ll \<leftarrow> py_and (balance > 1) (do { l \<leftarrow> avl_left node; lk \<leftarrow> avl_key l; Some (key < lk) });
     if ll then avl_rotate_right node else do {
     rr \<leftarrow> py_and (balance < -1) (do { r \<leftarrow> avl_right node; rk \<leftarrow> avl_key r; Some (key > rk) });
     if rr then avl_rotate_left node else do {
     lr \<leftarrow> py_and (balance > 1) (do { l \<leftarrow> avl_left node; lk \<leftarrow> avl_key l; Some (key > lk) });
     if lr then do {
       l \<leftarrow> avl_left node;
       l' \<leftarrow> avl_rotate_left l;
       node \<leftarrow> avl_set_left node l';
       avl_rotate_right node
     } else do {
     rl \<leftarrow> py_and (balance < -1) (do { r \<leftarrow> avl_right node; rk \<leftarrow> avl_key r; Some (key < rk) });
     if rl then do {
       r \<leftarrow> avl_right node;
       r' \<leftarrow> avl_rotate_right r;
       node \<leftarrow> avl_set_right node r';
       avl_rotate_left node
     } else Some node }}}
   }"

fun insert_helper :: "avl \<Rightarrow> int \<Rightarrow> (avl \<times> bool) option" where
  "insert_helper ALeaf key = Some (ANode ALeaf key 1 ALeaf, True)"
| "insert_helper (ANode l k h r) key =
     (if key < k then do {
        (l', inserted) \<leftarrow> insert_helper l key;
        node \<leftarrow> insert_rebalance (ANode l' k h r) key;
        Some (node, inserted)
      } else if key > k then do {
        (r', inserted) \<leftarrow> insert_helper r key;
        node \<leftarrow> insert_rebalance (ANode l k h r') key;
        Some (node, inserted)
      } else Some (ANode l k h r, False))"

definition avl_insert :: "int \<Rightarrow> avl_tree \<Rightarrow> avl_tree option" where
  "avl_insert key t = do {
     (root', inserted) \<leftarrow> insert_helper (avl_root t) key;
     Some \<lparr>avl_root = root', avl_size = (if inserted then avl_size t + 1 else avl_size t)\<rparr>
   }"

fun search_helper :: "avl \<Rightarrow> int \<Rightarrow> bool" where
  "search_helper ALeaf key = False"
| "search_helper (ANode l k h r) key =
     (if key = k then True
      else if key < k then search_helper l key
      else search_helper r key)"

text \<open>\<open>search\<close> returns the flag; the tree object is not touched.\<close>

definition avl_search :: "int \<Rightarrow> avl_tree \<Rightarrow> bool" where
  "avl_search key t = search_helper (avl_root t) key"

text \<open>\<open>get_min_node\<close>: \<open>while current.left: current = current.left\<close>.\<close>

fun get_min_node :: "avl \<Rightarrow> avl option" where
  "get_min_node ALeaf = None"
| "get_min_node (ANode l k h r) = (if l \<noteq> ALeaf then get_min_node l else Some (ANode l k h r))"

text \<open>Lines 240--264 of \<open>_delete_helper\<close>.\<close>

definition delete_rebalance :: "avl \<Rightarrow> avl option" where
  "delete_rebalance node0 = do {
     let node = update_height node0;
     let balance = get_balance node;
     l \<leftarrow> avl_left node;
     r \<leftarrow> avl_right node;
     if balance > 1 \<and> get_balance l \<ge> 0 then avl_rotate_right node
     else if balance > 1 \<and> get_balance l < 0 then do {
       l' \<leftarrow> avl_rotate_left l;
       node \<leftarrow> avl_set_left node l';
       avl_rotate_right node
     }
     else if balance < -1 \<and> get_balance r \<le> 0 then avl_rotate_left node
     else if balance < -1 \<and> get_balance r > 0 then do {
       r' \<leftarrow> avl_rotate_right r;
       node \<leftarrow> avl_set_right node r';
       avl_rotate_left node
     }
     else Some node
   }"

fun delete_helper :: "avl \<Rightarrow> int \<Rightarrow> avl option" where
  "delete_helper ALeaf key = Some ALeaf"
| "delete_helper (ANode l k h r) key =
     (if key < k then do {
        l' \<leftarrow> delete_helper l key;
        delete_rebalance (ANode l' k h r)
      } else if key > k then do {
        r' \<leftarrow> delete_helper r key;
        delete_rebalance (ANode l k h r')
      } else if l = ALeaf then Some r
      else if r = ALeaf then Some l
      else do {
        temp \<leftarrow> get_min_node r;
        temp_key \<leftarrow> avl_key temp;
        r' \<leftarrow> delete_helper r temp_key;
        delete_rebalance (ANode l temp_key h r')
      })"

text \<open>\<open>delete\<close>: line 211 decrements \<open>size\<close> whatever the helper did.\<close>

definition avl_delete :: "int \<Rightarrow> avl_tree \<Rightarrow> avl_tree option" where
  "avl_delete key t = do {
     root' \<leftarrow> delete_helper (avl_root t) key;
     Some \<lparr>avl_root = root', avl_size = avl_size t - 1\<rparr>
   }"

definition avl_get_size :: "avl_tree \<Rightarrow> int" where
  "avl_get_size t = avl_size t"

section \<open>Object store shared by the pointer-linked trees\<close>

text \<open>
  Red-Black and Splay nodes carry a \<open>parent\<close> back-reference, so a node is reachable
  through several links and is modelled as an object in a store: an object identity is a
  natural number, a reference is \<open>Some a\<close> or Python's \<open>None\<close>. Reading or writing a
  field through \<open>None\<close> raises \<open>AttributeError\<close>; in this model the operation then
  yields \<open>None\<close>. The while loops are \<open>partial_function\<close>s in the option monad, so a
  result \<open>Some s\<close> says that the call returned normally with state \<open>s\<close>.
\<close>

type_synonym ref = "nat option"

section \<open>Splay tree (src/src/splay_tree.py)\<close>

record snode =
  skey :: int
  sleft :: ref
  sright :: ref
  sparent :: ref

text \<open>\<open>s_alloc\<close> counts the \<open>SplayNode\<close> objects created so far; the next object gets
  this number as its identity.\<close>

record splay_tree =
  s_heap :: "nat \<Rightarrow> snode option"
  s_root :: ref
  s_size :: int
  s_alloc :: nat

definition splay_init :: splay_tree where
  "splay_init = \<lparr>s_heap = (\<lambda>a. None), s_root = None, s_size = 0, s_alloc = 0\<rparr>"

definition s_get :: "splay_tree \<Rightarrow> ref \<Rightarrow> snode option" where
  "s_get s p = (case p of None \<Rightarrow> None | Some a \<Rightarrow> s_heap s a)"

definition s_put :: "ref \<Rightarrow> (snode \<Rightarrow> snode) \<Rightarrow> splay_tree \<Rightarrow> splay_tree option" where
  "s_put p f s = (case p of None \<Rightarrow> None | Some a \<Rightarrow>
     (case s_heap s a of None \<Rightarrow> None
      | Some n \<Rightarrow> Some (s\<lparr>s_heap := (s_heap s)(a \<mapsto> f n)\<rparr>)))"

definition s_key :: "splay_tree \<Rightarrow> ref \<Rightarrow> int option" where
  "s_key s p = map_option skey (s_get s p)"

definition s_left :: "splay_tree \<Rightarrow> ref \<Rightarrow> ref option" where
  "s_left s p = map_option sleft (s_get s p)"

definition s_right :: "splay_tree \<Rightarrow> ref \<Rightarrow> ref option" where
  "s_right s p = map_option sright (s_get s p)"

definition s_parent :: "splay_tree \<Rightarrow> ref \<Rightarrow> ref option" where
  "s_parent s p = map_option sparent (s_get s p)"

definition s_set_left :: "ref \<Rightarrow> ref \<Rightarrow> splay_tree \<Rightarrow> splay_tree option" where
  "s_set_left p v s = s_put p (\<lambda>n. n\<lparr>sleft := v\<rparr>) s"

definition s_set_right :: "ref \<Rightarrow> ref \<Rightarrow> splay_tree \<Rightarrow> splay_tree option" where
  "s_set_right p v s = s_put p (\<lambda>n. n\<lparr>sright := v\<rparr>) s"

definition s_set_parent :: "ref \<Rightarrow> ref \<Rightarrow> splay_tree \<Rightarrow> splay_tree option" where
  "s_set_parent p v s = s_put p (\<lambda>n. n\<lparr>sparent := v\<rparr>) s"

text \<open>\<open>SplayNode(key)\<close>: a new object with all three links \<open>None\<close>.\<close>

definition s_new :: "int \<Rightarrow> splay_tree \<Rightarrow> ref \<times> splay_tree" where
  "s_new key s = (Some (s_alloc s),
     s\<lparr>s_heap := (s_heap s)(s_alloc s \<mapsto> \<lparr>skey = key, sleft = None, sright = None, sparent = None\<rparr>),
       s_alloc := Suc (s_alloc s)\<rparr>)"

definition splay_rotate_right :: "ref \<Rightarrow> splay_tree \<Rightarrow> splay_tree option" where
  "splay_rotate_right x s = do {
     y \<leftarrow> s_left s x;
     yr \<leftarrow> s_right s y;
     s \<leftarrow> s_set_left x yr s;
     yr \<leftarrow> s_right s y;
     s \<leftarrow> (if yr \<noteq> None then s_set_parent yr x s else Some s);
     xp \<leftarrow> s_parent s x;
     s \<leftarrow> s_set_parent y xp s;
     xp \<leftarrow> s_parent s x;
     s \<leftarrow> (if xp = None then Some (s\<lparr>s_root := y\<rparr>)
           else do {
             xpl \<leftarrow> s_left s xp;
             if x = xpl then s_set_left xp y s else s_set_right xp y s
           });
     s \<leftarrow> s_set_right y x s;
     s_set_parent x y s
   }"

definition splay_rotate_left :: "ref \<Rightarrow> splay_tree \<Rightarrow> splay_tree option" where
  "splay_rotate_left x s = do {
     y \<leftarrow> s_right s x;
     yl \<leftarrow> s_left s y;
     s \<leftarrow> s_set_right x yl s;
     yl \<leftarrow> s_left s y;
     s \<leftarrow> (if yl \<noteq> None then s_set_parent yl x s else Some s);
     xp \<leftarrow> s_parent s x;
     s \<leftarrow> s_set_parent y xp s;
     xp \<leftarrow> s_parent s x;
     s \<leftarrow> (if xp = None then Some (s\<lparr>s_root := y\<rparr>)
           else do {
             xpl \<leftarrow> s_left s xp;
             if x = xpl then s_set_left xp y s else s_set_right xp y s
           });
     s \<leftarrow> s_set_left y x s;
     s_set_parent x y s
   }"

text \<open>One iteration of the loop of \<open>splay\<close> (lines 93--114), entered with
  \<open>x.parent\<close> not \<open>None\<close>.\<close>

definition splay_step :: "ref \<Rightarrow> splay_tree \<Rightarrow> splay_tree option" where
  "splay_step x s = do {
     xp \<leftarrow> s_parent s x;
     xpp \<leftarrow> s_parent s xp;
     if xpp = None then do {
       xpl \<leftarrow> s_left s xp;
       if x = xpl then splay_rotate_right xp s else splay_rotate_left xp s
     } else do {
       xpl \<leftarrow> s_left s xp;
       ll \<leftarrow> py_and (x = xpl) (do { xppl \<leftarrow> s_left s xpp; Some (xp = xppl) });
       if ll then do {
         s \<leftarrow> splay_rotate_right xpp s;
         xp \<leftarrow> s_parent s x;
         splay_rotate_right xp s
       } else do {
       xpr \<leftarrow> s_right s xp;
       rr \<leftarrow> py_and (x = xpr) (do { xppr \<leftarrow> s_right s xpp; Some (xp = xppr) });
       if rr then do {
         s \<leftarrow> splay_rotate_left xpp s;
         xp \<leftarrow> s_parent s x;
         splay_rotate_left xp s
       } else do {
       rl \<leftarrow> py_and (x = xpr) (do { xppl \<leftarrow> s_left s xpp; Some (xp = xppl) });
       if rl then do {
         s \<leftarrow> splay_rotate_left xp s;
         xp \<leftarrow> s_parent s x;
         splay_rotate_right xp s
       } else do {
         s \<leftarrow> splay_rotate_right xp s;
         xp \<leftarrow> s_parent s x;
         splay_rotate_left xp s
       }}}
     }
   }"

partial_function (option) splay :: "ref \<Rightarrow> splay_tree \<Rightarrow> splay_tree option" where
  "splay x s = do {
     xp \<leftarrow> s_parent s x;
     if xp \<noteq> None then do { s \<leftarrow> splay_step x s; splay x s } else Some s
   }"

declare splay.simps [code]

text \<open>The descent loop of \<open>insert\<close> (lines 134--143) together with the code after it
  (lines 145--155), which runs when the loop ends without finding the key.\<close>

partial_function (option) splay_insert_loop ::
  "int \<Rightarrow> ref \<Rightarrow> ref \<Rightarrow> ref \<Rightarrow> splay_tree \<Rightarrow> splay_tree option" where
  "splay_insert_loop key node current parent s =
     (if current \<noteq> None then do {
        ck \<leftarrow> s_key s current;
        if key < ck then do { c \<leftarrow> s_left s current; splay_insert_loop key node c current s }
        else if key > ck then do { c \<leftarrow> s_right s current; splay_insert_loop key node c current s }
        else splay current s
      } else do {
        s \<leftarrow> s_set_parent node parent s;
        pk \<leftarrow> s_key s parent;
        s \<leftarrow> (if key < pk then s_set_left parent node s else s_set_right parent node s);
        splay node (s\<lparr>s_size := s_size s + 1\<rparr>)
      })"

declare splay_insert_loop.simps [code]

definition splay_insert :: "int \<Rightarrow> splay_tree \<Rightarrow> splay_tree option" where
  "splay_insert key s0 =
     (let (node, s) = s_new key s0 in
      if s_root s = None then Some (s\<lparr>s_root := node, s_size := s_size s + 1\<rparr>)
      else splay_insert_loop key node (s_root s) None s)"

partial_function (option) splay_search_loop ::
  "int \<Rightarrow> ref \<Rightarrow> splay_tree \<Rightarrow> (bool \<times> splay_tree) option" where
  "splay_search_loop key current s =
     (if current \<noteq> None then do {
        ck \<leftarrow> s_key s current;
        if key = ck then do { s \<leftarrow> splay current s; Some (True, s) }
        else if key < ck then do {
          cl \<leftarrow> s_left s current;
          if cl = None then do { s \<leftarrow> splay current s; Some (False, s) }
          else splay_search_loop key cl s
        } else do {
          cr \<leftarrow> s_right s current;
          if cr = None then do { s \<leftarrow> splay current s; Some (False, s) }
          else splay_search_loop key cr s
        }
      } else Some (False, s))"

declare splay_search_loop.simps [code]

definition splay_search :: "int \<Rightarrow> splay_tree \<Rightarrow> (bool \<times> splay_tree) option" where
  "splay_search key s = splay_search_loop key (s_root s) s"

partial_function (option) subtree_maximum :: "ref \<Rightarrow> splay_tree \<Rightarrow> ref option" where
  "subtree_maximum node s = do {
     r \<leftarrow> s_right s node;
     if r \<noteq> None then subtree_maximum r s else Some node
   }"

declare subtree_maximum.simps [code]

definition splay_delete :: "int \<Rightarrow> splay_tree \<Rightarrow> splay_tree option" where
  "splay_delete key s0 = do {
     (found, s) \<leftarrow> splay_search key s0;
     if \<not> found then Some s
     else do {
       rl \<leftarrow> s_left s (s_root s);
       rr \<leftarrow> s_right s (s_root s);
       s \<leftarrow> (if rl = None then do {
               let s = s\<lparr>s_root := rr\<rparr>;
               if s_root s \<noteq> None then s_set_parent (s_root s) None s else Some s
             } else if rr = None then do {
               let s = s\<lparr>s_root := rl\<rparr>;
               if s_root s \<noteq> None then s_set_parent (s_root s) None s else Some s
             } else do {
               let left_subtree = rl;
               let right_subtree = rr;
               s \<leftarrow> s_set_parent right_subtree None s;
               let s = s\<lparr>s_root := left_subtree\<rparr>;
               s \<leftarrow> s_set_parent (s_root s) None s;
               max_node \<leftarrow> subtree_maximum (s_root s) s;
               s \<leftarrow> splay max_node s;
               s \<leftarrow> s_set_right (s_root s) right_subtree s;
               s_set_parent right_subtree (s_root s) s
             });
       Some (s\<lparr>s_size := s_size s - 1\<rparr>)
     }
   }"

definition splay_get_size :: "splay_tree \<Rightarrow> int" where
  "splay_get_size s = s_size s"

section \<open>Red-Black tree (src/src/rb_tree.py)\<close>

datatype color = RED | BLACK

text \<open>The key of the sentinel is Python's \<open>None\<close>; an order comparison of an integer
  with \<open>None\<close> raises \<open>TypeError\<close>.\<close>

record rbnode =
  rkey :: "int option"
  rcolor :: color
  rleft :: ref
  rright :: ref
  rparent :: ref

record rb_tree =
  r_heap :: "nat \<Rightarrow> rbnode option"
  r_NIL :: ref
  r_root :: ref
  r_size :: int
  r_alloc :: nat

text \<open>\<open>__init__\<close>: the sentinel is the first object; its links stay \<open>None\<close>.\<close>

definition rb_init :: rb_tree where
  "rb_init = \<lparr>r_heap = (\<lambda>a. None)(0 \<mapsto> \<lparr>rkey = None, rcolor = BLACK, rleft = None,
                 rright = None, rparent = None\<rparr>),
     r_NIL = Some 0, r_root = Some 0, r_size = 0, r_alloc = 1\<rparr>"

definition r_get :: "rb_tree \<Rightarrow> ref \<Rightarrow> rbnode option" where
  "r_get s p = (case p of None \<Rightarrow> None | Some a \<Rightarrow> r_heap s a)"

definition r_put :: "ref \<Rightarrow> (rbnode \<Rightarrow> rbnode) \<Rightarrow> rb_tree \<Rightarrow> rb_tree option" where
  "r_put p f s = (case p of None \<Rightarrow> None | Some a \<Rightarrow>
     (case r_heap s a of None \<Rightarrow> None
      | Some n \<Rightarrow> Some (s\<lparr>r_heap := (r_heap s)(a \<mapsto> f n)\<rparr>)))"

definition r_key :: "rb_tree \<Rightarrow> ref \<Rightarrow> int option option" where
  "r_key s p = map_option rkey (r_get s p)"

definition r_color :: "rb_tree \<Rightarrow> ref \<Rightarrow> color option" where
  "r_color s p = map_option rcolor (r_get s p)"

definition r_left :: "rb_tree \<Rightarrow> ref \<Rightarrow> ref option" where
  "r_left s p = map_option rleft (r_get s p)"

definition r_right :: "rb_tree \<Rightarrow> ref \<Rightarrow> ref option" where
  "r_right s p = map_option rright (r_get s p)"

definition r_parent :: "rb_tree \<Rightarrow> ref \<Rightarrow> ref option" where
  "r_parent s p = map_option rparent (r_get s p)"

definition r_set_color :: "ref \<Rightarrow> color \<Rightarrow> rb_tree \<Rightarrow> rb_tree option" where
  "r_set_color p v s = r_put p (\<lambda>n. n\<lparr>rcolor := v\<rparr>) s"

definition r_set_left :: "ref \<Rightarrow> ref \<Rightarrow> rb_tree \<Rightarrow> rb_tree option" where
  "r_set_left p v s = r_put p (\<lambda>n. n\<lparr>rleft := v\<rparr>) s"

definition r_set_right :: "ref \<Rightarrow> ref \<Rightarrow> rb_tree \<Rightarrow> rb_tree option" where
  "r_set_right p v s = r_put p (\<lambda>n. n\<lparr>rright := v\<rparr>) s"

definition r_set_parent :: "ref \<Rightarrow> ref \<Rightarrow> rb_tree \<Rightarrow> rb_tree option" where
  "r_set_parent p v s = r_put p (\<lambda>n. n\<lparr>rparent := v\<rparr>) s"

text \<open>\<open>key < node.key\<close> and \<open>key > node.key\<close> for an integer \<open>key\<close>.\<close>

definition r_key_less :: "int \<Rightarrow> rb_tree \<Rightarrow> ref \<Rightarrow> bool option" where
  "r_key_less key s p = do { k \<leftarrow> r_key s p; v \<leftarrow> k; Some (key < v) }"

definition r_key_greater :: "int \<Rightarrow> rb_tree \<Rightarrow> ref \<Rightarrow> bool option" where
  "r_key_greater key s p = do { k \<leftarrow> r_key s p; v \<leftarrow> k; Some (key > v) }"

text \<open>\<open>key == node.key\<close>: equality with \<open>None\<close> is \<open>False\<close>, not an error.\<close>

definition r_key_eq :: "int \<Rightarrow> rb_tree \<Rightarrow> ref \<Rightarrow> bool option" where
  "r_key_eq key s p = do { k \<leftarrow> r_key s p; Some (k = Some key) }"

text \<open>\<open>RBNode(key)\<close> followed by \<open>node.left = self.NIL; node.right = self.NIL\<close>
  (lines 105--107).\<close>

definition r_new :: "int \<Rightarrow> rb_tree \<Rightarrow> ref \<times> rb_tree" where
  "r_new key s = (Some (r_alloc s),
     s\<lparr>r_heap := (r_heap s)(r_alloc s \<mapsto> \<lparr>rkey = Some key, rcolor = RED, rleft = r_NIL s,
                    rright = r_NIL s, rparent = None\<rparr>),
       r_alloc := Suc (r_alloc s)\<rparr>)"

definition rb_rotate_left :: "ref \<Rightarrow> rb_tree \<Rightarrow> rb_tree option" where
  "rb_rotate_left x s = do {
     y \<leftarrow> r_right s x;
     yl \<leftarrow> r_left s y;
     s \<leftarrow> r_set_right x yl s;
     yl \<leftarrow> r_left s y;
     s \<leftarrow> (if yl \<noteq> r_NIL s then r_set_parent yl x s else Some s);
     xp \<leftarrow> r_parent s x;
     s \<leftarrow> r_set_parent y xp s;
     xp \<leftarrow> r_parent s x;
     s \<leftarrow> (if xp = None then Some (s\<lparr>r_root := y\<rparr>)
           else do {
             xpl \<leftarrow> r_left s xp;
             if x = xpl then r_set_left xp y s else r_set_right xp y s
           });
     s \<leftarrow> r_set_left y x s;
     r_set_parent x y s
   }"

definition rb_rotate_right :: "ref \<Rightarrow> rb_tree \<Rightarrow> rb_tree option" where
  "rb_rotate_right y s = do {
     x \<leftarrow> r_left s y;
     xr \<leftarrow> r_right s x;
     s \<leftarrow> r_set_left y xr s;
     xr \<leftarrow> r_right s x;
     s \<leftarrow> (if xr \<noteq> r_NIL s then r_set_parent xr y s else Some s);
     yp \<leftarrow> r_parent s y;
     s \<leftarrow> r_set_parent x yp s;
     yp \<leftarrow> r_parent s y;
     s \<leftarrow> (if yp = None then Some (s\<lparr>r_root := x\<rparr>)
           else do {
             ypr \<leftarrow> r_right s yp;
             if y = ypr then r_set_right yp x s else r_set_left yp x s
           });
     s \<leftarrow> r_set_right x y s;
     r_set_parent y x s
   }"

text \<open>One iteration of the loop of \<open>_insert_fixup\<close> (lines 145--182); it returns the
  new \<open>z\<close> with the state.\<close>

definition rb_insert_fixup_step :: "ref \<Rightarrow> rb_tree \<Rightarrow> (ref \<times> rb_tree) option" where
  "rb_insert_fixup_step z s = do {
     zp \<leftarrow> r_parent s z;
     zpp \<leftarrow> r_parent s zp;
     zppl \<leftarrow> r_left s zpp;
     if zp = zppl then do {
       y \<leftarrow> r_right s zpp;
       yc \<leftarrow> r_color s y;
       if yc = RED then do {
         s \<leftarrow> r_set_color zp BLACK s;
         s \<leftarrow> r_set_color y BLACK s;
         zp \<leftarrow> r_parent s z;
         zpp \<leftarrow> r_parent s zp;
         s \<leftarrow> r_set_color zpp RED s;
         zp \<leftarrow> r_parent s z;
         zpp \<leftarrow> r_parent s zp;
         Some (zpp, s)
       } else do {
         zp \<leftarrow> r_parent s z;
         zpr \<leftarrow> r_right s zp;
         (z, s) \<leftarrow> (if z = zpr then do {
                      s \<leftarrow> rb_rotate_left zp s;
                      Some (zp, s)
                    } else Some (z, s));
         zp \<leftarrow> r_parent s z;
         s \<leftarrow> r_set_color zp BLACK s;
         zp \<leftarrow> r_parent s z;
         zpp \<leftarrow> r_parent s zp;
         s \<leftarrow> r_set_color zpp RED s;
         zp \<leftarrow> r_parent s z;
         zpp \<leftarrow> r_parent s zp;
         s \<leftarrow> rb_rotate_right zpp s;
         Some (z, s)
       }
     } else do {
       y \<leftarrow> r_left s zpp;
       yc \<leftarrow> r_color s y;
       if yc = RED then do {
         s \<leftarrow> r_set_color zp BLACK s;
         s \<leftarrow> r_set_color y BLACK s;
         zp \<leftarrow> r_parent s z;
         zpp \<leftarrow> r_parent s zp;
         s \<leftarrow> r_set_color zpp RED s;
         zp \<leftarrow> r_parent s z;
         zpp \<leftarrow> r_parent s zp;
         Some (zpp, s)
       } else do {
         zp \<leftarrow> r_parent s z;
         zpl \<leftarrow> r_left s zp;
         (z, s) \<leftarrow> (if z = zpl then do {
                      s \<leftarrow> rb_rotate_right zp s;
                      Some (zp, s)
                    } else Some (z, s));
         zp \<leftarrow> r_parent s z;
         s \<leftarrow> r_set_color zp BLACK s;
         zp \<leftarrow> r_parent s z;
         zpp \<leftarrow> r_parent s zp;
         s \<leftarrow> r_set_color zpp RED s;
         zp \<leftarrow> r_parent s z;
         zpp \<leftarrow> r_parent s zp;
         s \<leftarrow> rb_rotate_left zpp s;
         Some (z, s)
       }
     }
   }"

text \<open>\<open>_insert_fixup\<close>: \<open>while z.parent and z.parent.color == Color.RED\<close>, then the
  root is coloured black.\<close>

partial_function (option) rb_insert_fixup :: "ref \<Rightarrow> rb_tree \<Rightarrow> rb_tree option" where
  "rb_insert_fixup z s = do {
     zp \<leftarrow> r_parent s z;
     continue \<leftarrow> py_and (zp \<noteq> None) (do { c \<leftarrow> r_color s zp; Some (c = RED) });
     if continue then do { (z, s) \<leftarrow> rb_insert_fixup_step z s; rb_insert_fixup z s }
     else r_set_color (r_root s) BLACK s
   }"

declare rb_insert_fixup.simps [code]

text \<open>The descent loop of \<open>insert\<close> (lines 113--121) with the code after it
  (lines 123--135).\<close>

partial_function (option) rb_insert_loop ::
  "int \<Rightarrow> ref \<Rightarrow> ref \<Rightarrow> ref \<Rightarrow> rb_tree \<Rightarrow> rb_tree option" where
  "rb_insert_loop key node current parent s =
     (if current \<noteq> r_NIL s then do {
        lt \<leftarrow> r_key_less key s current;
        if lt then do { c \<leftarrow> r_left s current; rb_insert_loop key node c current s }
        else do {
          gt \<leftarrow> r_key_greater key s current;
          if gt then do { c \<leftarrow> r_right s current; rb_insert_loop key node c current s }
          else Some s
        }
      } else do {
        s \<leftarrow> r_set_parent node parent s;
        s \<leftarrow> (if parent = None then Some (s\<lparr>r_root := node\<rparr>)
              else do {
                lt \<leftarrow> r_key_less key s parent;
                if lt then r_set_left parent node s else r_set_right parent node s
              });
        rb_insert_fixup node (s\<lparr>r_size := r_size s + 1\<rparr>)
      })"

declare rb_insert_loop.simps [code]

definition rb_insert :: "int \<Rightarrow> rb_tree \<Rightarrow> rb_tree option" where
  "rb_insert key s0 = (let (node, s) = r_new key s0 in rb_insert_loop key node (r_root s) None s)"

partial_function (option) rb_search_loop :: "int \<Rightarrow> ref \<Rightarrow> rb_tree \<Rightarrow> bool option" where
  "rb_search_loop key current s =
     (if current \<noteq> r_NIL s then do {
        eq \<leftarrow> r_key_eq key s current;
        if eq then Some True
        else do {
          lt \<leftarrow> r_key_less key s current;
          if lt then do { c \<leftarrow> r_left s current; rb_search_loop key c s }
          else do { c \<leftarrow> r_right s current; rb_search_loop key c s }
        }
      } else Some False)"

declare rb_search_loop.simps [code]

text \<open>\<open>search\<close> only reads; the state is unchanged and is not returned.\<close>

definition rb_search :: "int \<Rightarrow> rb_tree \<Rightarrow> bool option" where
  "rb_search key s = rb_search_loop key (r_root s) s"

definition rb_transplant :: "ref \<Rightarrow> ref \<Rightarrow> rb_tree \<Rightarrow> rb_tree option" where
  "rb_transplant u v s = do {
     up \<leftarrow> r_parent s u;
     s \<leftarrow> (if up = None then Some (s\<lparr>r_root := v\<rparr>)
           else do {
             upl \<leftarrow> r_left s up;
             if u = upl then r_set_left up v s else r_set_right up v s
           });
     up \<leftarrow> r_parent s u;
     r_set_parent v up s
   }"

partial_function (option) rb_minimum :: "ref \<Rightarrow> rb_tree \<Rightarrow> ref option" where
  "rb_minimum node s = do {
     l \<leftarrow> r_left s node;
     if l \<noteq> r_NIL s then rb_minimum l s else Some node
   }"

declare rb_minimum.simps [code]

partial_function (option) rb_search_node :: "int \<Rightarrow> ref \<Rightarrow> rb_tree \<Rightarrow> ref option" where
  "rb_search_node key current s = do {
     continue \<leftarrow> py_and (current \<noteq> r_NIL s)
                  (do { eq \<leftarrow> r_key_eq key s current; Some (\<not> eq) });
     if continue then do {
       lt \<leftarrow> r_key_less key s current;
       if lt then do { c \<leftarrow> r_left s current; rb_search_node key c s }
       else do { c \<leftarrow> r_right s current; rb_search_node key c s }
     } else Some current
   }"

declare rb_search_node.simps [code]

text \<open>One iteration of the loop of \<open>_delete_fixup\<close> (lines 297--352); it returns the
  new \<open>x\<close> with the state.\<close>

definition rb_delete_fixup_step :: "ref \<Rightarrow> rb_tree \<Rightarrow> (ref \<times> rb_tree) option" where
  "rb_delete_fixup_step x s = do {
     xp \<leftarrow> r_parent s x;
     xpl \<leftarrow> r_left s xp;
     if x = xpl then do {
       w \<leftarrow> r_right s xp;
       wc \<leftarrow> r_color s w;
       (w, s) \<leftarrow> (if wc = RED then do {
                    s \<leftarrow> r_set_color w BLACK s;
                    xp \<leftarrow> r_parent s x;
                    s \<leftarrow> r_set_color xp RED s;
                    xp \<leftarrow> r_parent s x;
                    s \<leftarrow> rb_rotate_left xp s;
                    xp \<leftarrow> r_parent s x;
                    w \<leftarrow> r_right s xp;
                    Some (w, s)
                  } else Some (w, s));
       wl \<leftarrow> r_left s w;
       wlc \<leftarrow> r_color s wl;
       both \<leftarrow> py_and (wlc = BLACK) (do { wr \<leftarrow> r_right s w; wrc \<leftarrow> r_color s wr; Some (wrc = BLACK) });
       if both then do {
         s \<leftarrow> r_set_color w RED s;
         xp \<leftarrow> r_parent s x;
         Some (xp, s)
       } else do {
         wr \<leftarrow> r_right s w;
         wrc \<leftarrow> r_color s wr;
         (w, s) \<leftarrow> (if wrc = BLACK then do {
                      wl \<leftarrow> r_left s w;
                      s \<leftarrow> r_set_color wl BLACK s;
                      s \<leftarrow> r_set_color w RED s;
                      s \<leftarrow> rb_rotate_right w s;
                      xp \<leftarrow> r_parent s x;
                      w \<leftarrow> r_right s xp;
                      Some (w, s)
                    } else Some (w, s));
         xp \<leftarrow> r_parent s x;
         xpc \<leftarrow> r_color s xp;
         s \<leftarrow> r_set_color w xpc s;
         xp \<leftarrow> r_parent s x;
         s \<leftarrow> r_set_color xp BLACK s;
         wr \<leftarrow> r_right s w;
         s \<leftarrow> r_set_color wr BLACK s;
         xp \<leftarrow> r_parent s x;
         s \<leftarrow> rb_rotate_left xp s;
         Some (r_root s, s)
       }
     } else do {
       w \<leftarrow> r_left s xp;
       wc \<leftarrow> r_color s w;
       (w, s) \<leftarrow> (if wc = RED then do {
                    s \<leftarrow> r_set_color w BLACK s;
                    xp \<leftarrow> r_parent s x;
                    s \<leftarrow> r_set_color xp RED s;
                    xp \<leftarrow> r_parent s x;
                    s \<leftarrow> rb_rotate_right xp s;
                    xp \<leftarrow> r_parent s x;
                    w \<leftarrow> r_left s xp;
                    Some (w, s)
                  } else Some (w, s));
       wr \<leftarrow> r_right s w;
       wrc \<leftarrow> r_color s wr;
       both \<leftarrow> py_and (wrc = BLACK) (do { wl \<leftarrow> r_left s w; wlc \<leftarrow> r_color s wl; Some (wlc = BLACK) });
       if both then do {
         s \<leftarrow> r_set_color w RED s;
         xp \<leftarrow> r_parent s x;
         Some (xp, s)
       } else do {
         wl \<leftarrow> r_left s w;
         wlc \<leftarrow> r_color s wl;
         (w, s) \<leftarrow> (if wlc = BLACK then do {
                      wr \<leftarrow> r_right s w;
                      s \<leftarrow> r_set_color wr BLACK s;
                      s \<leftarrow> r_set_color w RED s;
                      s \<leftarrow> rb_rotate_left w s;
                      xp \<leftarrow> r_parent s x;
                      w \<leftarrow> r_left s xp;
                      Some (w, s)
                    } else Some (w, s));
         xp \<leftarrow> r_parent s x;
         xpc \<leftarrow> r_color s xp;
         s \<leftarrow> r_set_color w xpc s;
         xp \<leftarrow> r_parent s x;
         s \<leftarrow> r_set_color xp BLACK s;
         wl \<leftarrow> r_left s w;
         s \<leftarrow> r_set_color wl BLACK s;
         xp \<leftarrow> r_parent s x;
         s \<leftarrow> rb_rotate_right xp s;
         Some (r_root s, s)
       }
     }
   }"

text \<open>\<open>_delete_fixup\<close>: \<open>while x != self.root and x.color == Color.BLACK\<close>, then
  \<open>x.color = Color.BLACK\<close>.\<close>

partial_function (option) rb_delete_fixup :: "ref \<Rightarrow> rb_tree \<Rightarrow> rb_tree option" where
  "rb_delete_fixup x s = do {
     continue \<leftarrow> py_and (x \<noteq> r_root s) (do { c \<leftarrow> r_color s x; Some (c = BLACK) });
     if continue then do { (x, s) \<leftarrow> rb_delete_fixup_step x s; rb_delete_fixup x s }
     else r_set_color x BLACK s
   }"

declare rb_delete_fixup.simps [code]

definition rb_delete :: "int \<Rightarrow> rb_tree \<Rightarrow> rb_tree option" where
  "rb_delete key s = do {
     z \<leftarrow> rb_search_node key (r_root s) s;
     if z = r_NIL s then Some s
     else do {
       let s = s\<lparr>r_size := r_size s - 1\<rparr>;
       let y = z;
       y_original_color \<leftarrow> r_color s y;
       zl \<leftarrow> r_left s z;
       zr \<leftarrow> r_right s z;
       (x, y_original_color, s) \<leftarrow>
         (if zl = r_NIL s then do {
            s \<leftarrow> rb_transplant z zr s;
            Some (zr, y_original_color, s)
          } else if zr = r_NIL s then do {
            s \<leftarrow> rb_transplant z zl s;
            Some (zl, y_original_color, s)
          } else do {
            y \<leftarrow> rb_minimum zr s;
            y_original_color \<leftarrow> r_color s y;
            x \<leftarrow> r_right s y;
            yp \<leftarrow> r_parent s y;
            s \<leftarrow> (if yp = z then r_set_parent x y s
                  else do {
                    yr \<leftarrow> r_right s y;
                    s \<leftarrow> rb_transplant y yr s;
                    zr \<leftarrow> r_right s z;
                    s \<leftarrow> r_set_right y zr s;
                    yr \<leftarrow> r_right s y;
                    r_set_parent yr y s
                  });
            s \<leftarrow> rb_transplant z y s;
            zl \<leftarrow> r_left s z;
            s \<leftarrow> r_set_left y zl s;
            yl \<leftarrow> r_left s y;
            s \<leftarrow> r_set_parent yl y s;
            zc \<leftarrow> r_color s z;
            s \<leftarrow> r_set_color y zc s;
            Some (x, y_original_color, s)
          });
       if y_original_color = BLACK then rb_delete_fixup x s else Some s
     }
   }"

definition rb_get_size :: "rb_tree \<Rightarrow> int" where
  "rb_get_size s = r_size s"

section \<open>Sequences of operations\<close>

text \<open>The callers (tests, demo, benchmark) create one tree and feed it a sequence of
  \<open>insert\<close>, \<open>search\<close> and \<open>delete\<close> calls. \<open>avl_run\<close>, \<open>rb_run\<close> and
  \<open>splay_run\<close> perform such a sequence from a given state; the result of a \<open>search\<close>
  is dropped, its effect on the state is kept.\<close>

datatype op = Insert int | Search int | Delete int

fun avl_apply :: "op \<Rightarrow> avl_tree \<Rightarrow> avl_tree option" where
  "avl_apply (Insert k) t = avl_insert k t"
| "avl_apply (Search k) t = Some t"
| "avl_apply (Delete k) t = avl_delete k t"

fun avl_run :: "op list \<Rightarrow> avl_tree \<Rightarrow> avl_tree option" where
  "avl_run [] t = Some t"
| "avl_run (x # xs) t = avl_apply x t \<bind> avl_run xs"

fun rb_apply :: "op \<Rightarrow> rb_tree \<Rightarrow> rb_tree option" where
  "rb_apply (Insert k) s = rb_insert k s"
| "rb_apply (Search k) s = rb_search k s \<bind> (\<lambda>found. Some s)"
| "rb_apply (Delete k) s = rb_delete k s"

fun rb_run :: "op list \<Rightarrow> rb_tree \<Rightarrow> rb_tree option" where
  "rb_run [] s = Some s"
| "rb_run (x # xs) s = rb_apply x s \<bind> rb_run xs"

fun splay_apply :: "op \<Rightarrow> splay_tree \<Rightarrow> splay_tree option" where
  "splay_apply (Insert k) s = splay_insert k s"
| "splay_apply (Search k) s = splay_search k s \<bind> (\<lambda>(found, s'). Some s')"
| "splay_apply (Delete k) s = splay_delete k s"

fun splay_run :: "op list \<Rightarrow> splay_tree \<Rightarrow> splay_tree option" where
  "splay_run [] s = Some s"
| "splay_run (x # xs) s = splay_apply x s \<bind> splay_run xs"

section \<open>Specification vocabulary\<close>

text \<open>The set of keys that are present after a sequence of operations on a container that
  held the keys \<open>K\<close>: the reference semantics of an ordered set.\<close>

fun keys_after :: "op list \<Rightarrow> int set \<Rightarrow> int set" where
  "keys_after [] K = K"
| "keys_after (Insert k # xs) K = keys_after xs (insert k K)"
| "keys_after (Search k # xs) K = keys_after xs K"
| "keys_after (Delete k # xs) K = keys_after xs (K - {k})"

subsection \<open>AVL\<close>

fun avl_inorder :: "avl \<Rightarrow> int list" where
  "avl_inorder ALeaf = []"
| "avl_inorder (ANode l k h r) = avl_inorder l @ k # avl_inorder r"

fun avl_true_height :: "avl \<Rightarrow> int" where
  "avl_true_height ALeaf = 0"
| "avl_true_height (ANode l k h r) = 1 + max (avl_true_height l) (avl_true_height r)"

fun avl_inv :: "avl \<Rightarrow> bool" where
  "avl_inv ALeaf = True"
| "avl_inv (ANode l k h r) = (avl_inv l \<and> avl_inv r
      \<and> h = 1 + max (get_height l) (get_height r)
      \<and> \<bar>get_height l - get_height r\<bar> \<le> 1)"

definition grew :: "avl \<Rightarrow> int \<Rightarrow> bool" where
  "grew t key = (case t of ALeaf \<Rightarrow> False
     | ANode l k h r \<Rightarrow> (key < k \<and> get_height l = get_height r + 1)
                      \<or> (key > k \<and> get_height r = get_height l + 1))"

definition avl_state_inv :: "avl_tree \<Rightarrow> bool" where
  "avl_state_inv t = (avl_inv (avl_root t) \<and> sorted_wrt (<) (avl_inorder (avl_root t)))"

text \<open>The balance condition on the real heights of the subtrees, and the condition on the
  stored \<open>height\<close> fields.\<close>

fun avl_balanced :: "avl \<Rightarrow> bool" where
  "avl_balanced ALeaf = True"
| "avl_balanced (ANode l k h r) = (avl_balanced l \<and> avl_balanced r
      \<and> \<bar>avl_true_height l - avl_true_height r\<bar> \<le> 1)"

fun avl_heights_stored :: "avl \<Rightarrow> bool" where
  "avl_heights_stored ALeaf = True"
| "avl_heights_stored (ANode l k h r) = (avl_heights_stored l \<and> avl_heights_stored r
      \<and> h = 1 + max (get_height l) (get_height r))"

subsection \<open>Pointer-linked trees as values\<close>

text \<open>A tree whose nodes are objects of the store: \<open>PNode l a k c r\<close> is the object \<open>a\<close>
  with key \<open>k\<close>, colour \<open>c\<close> (unit for a Splay node) and subtrees \<open>l\<close>, \<open>r\<close>. A frame is a
  node seen from one of its children; a list of frames, innermost first, is the path from a
  position up to the root.\<close>

datatype 'c ptree = PLeaf | PNode "'c ptree" nat int 'c "'c ptree"

datatype 'c frame = FL nat int 'c "'c ptree" | FR "'c ptree" nat int 'c

fun pptr :: "'c ptree \<Rightarrow> ref" where
  "pptr PLeaf = None"
| "pptr (PNode l a k c r) = Some a"

fun pkeys :: "'c ptree \<Rightarrow> int list" where
  "pkeys PLeaf = []"
| "pkeys (PNode l a k c r) = pkeys l @ k # pkeys r"

fun paddrs :: "'c ptree \<Rightarrow> nat list" where
  "paddrs PLeaf = []"
| "paddrs (PNode l a k c r) = paddrs l @ a # paddrs r"

fun fill :: "'c frame \<Rightarrow> 'c ptree \<Rightarrow> 'c ptree" where
  "fill (FL a k c r) t = PNode t a k c r"
| "fill (FR l a k c) t = PNode l a k c t"

fun plug :: "'c frame list \<Rightarrow> 'c ptree \<Rightarrow> 'c ptree" where
  "plug [] t = t"
| "plug (f # C) t = plug C (fill f t)"

fun ckeys_l :: "'c frame list \<Rightarrow> int list" where
  "ckeys_l [] = []"
| "ckeys_l (FL a k c r # C) = ckeys_l C"
| "ckeys_l (FR l a k c # C) = ckeys_l C @ pkeys l @ [k]"

fun ckeys_r :: "'c frame list \<Rightarrow> int list" where
  "ckeys_r [] = []"
| "ckeys_r (FL a k c r # C) = k # pkeys r @ ckeys_r C"
| "ckeys_r (FR l a k c # C) = ckeys_r C"

fun caddrs_l :: "'c frame list \<Rightarrow> nat list" where
  "caddrs_l [] = []"
| "caddrs_l (FL a k c r # C) = caddrs_l C"
| "caddrs_l (FR l a k c # C) = caddrs_l C @ paddrs l @ [a]"

fun caddrs_r :: "'c frame list \<Rightarrow> nat list" where
  "caddrs_r [] = []"
| "caddrs_r (FL a k c r # C) = a # paddrs r @ caddrs_r C"
| "caddrs_r (FR l a k c # C) = caddrs_r C"

text \<open>\<open>stree h p par t\<close>: in store \<open>h\<close> the reference \<open>p\<close> is the root of a Splay subtree
  of shape \<open>t\<close> whose root has parent link \<open>par\<close>; \<open>sctx h root C p par\<close>: the path \<open>C\<close> leads
  from the position holding \<open>p\<close>, whose parent is \<open>par\<close>, up to the root reference.\<close>

fun stree :: "(nat \<Rightarrow> snode option) \<Rightarrow> ref \<Rightarrow> ref \<Rightarrow> unit ptree \<Rightarrow> bool" where
  "stree h p par PLeaf = (p = None)"
| "stree h p par (PNode l a k c r) = (p = Some a \<and>
     (case h a of None \<Rightarrow> False
      | Some n \<Rightarrow> skey n = k \<and> sparent n = par
          \<and> stree h (sleft n) (Some a) l \<and> stree h (sright n) (Some a) r))"

fun sctx :: "(nat \<Rightarrow> snode option) \<Rightarrow> ref \<Rightarrow> unit frame list \<Rightarrow> ref \<Rightarrow> ref \<Rightarrow> bool" where
  "sctx h root [] p par = (root = p \<and> par = None)"
| "sctx h root (FL a k c r # C) p par = (par = Some a \<and>
     (case h a of None \<Rightarrow> False
      | Some n \<Rightarrow> skey n = k \<and> sleft n = p
          \<and> stree h (sright n) (Some a) r \<and> sctx h root C (Some a) (sparent n)))"
| "sctx h root (FR l a k c # C) p par = (par = Some a \<and>
     (case h a of None \<Rightarrow> False
      | Some n \<Rightarrow> skey n = k \<and> sright n = p
          \<and> stree h (sleft n) (Some a) l \<and> sctx h root C (Some a) (sparent n)))"

text \<open>Bottom-up splaying on a path and the subtree below it.\<close>

fun zsplay :: "'c frame list \<Rightarrow> 'c ptree \<Rightarrow> 'c ptree" where
  "zsplay [] t = t"
| "zsplay [FL p kp cp R] (PNode A x kx cx B) = PNode A x kx cx (PNode B p kp cp R)"
| "zsplay [FR L p kp cp] (PNode A x kx cx B) = PNode (PNode L p kp cp A) x kx cx B"
| "zsplay (FL p kp cp Rp # FL g kg cg Rg # C) (PNode A x kx cx B) =
     zsplay C (PNode A x kx cx (PNode B p kp cp (PNode Rp g kg cg Rg)))"
| "zsplay (FR Lp p kp cp # FR Lg g kg cg # C) (PNode A x kx cx B) =
     zsplay C (PNode (PNode (PNode Lg g kg cg Lp) p kp cp A) x kx cx B)"
| "zsplay (FR Lp p kp cp # FL g kg cg Rg # C) (PNode A x kx cx B) =
     zsplay C (PNode (PNode Lp p kp cp A) x kx cx (PNode B g kg cg Rg))"
| "zsplay (FL p kp cp Rp # FR Lg g kg cg # C) (PNode A x kx cx B) =
     zsplay C (PNode (PNode Lg g kg cg A) x kx cx (PNode B p kp cp Rp))"
| "zsplay (f # C) PLeaf = PLeaf"

text \<open>The descent of \<open>search\<close> on a path and the subtree below it, the objects a search
  for a key visits, and the tree \<open>search\<close> leaves behind.\<close>

fun pkey :: "'c ptree \<Rightarrow> int option" where
  "pkey PLeaf = None"
| "pkey (PNode l a k c r) = Some k"

fun zfind :: "int \<Rightarrow> 'c frame list \<Rightarrow> 'c ptree \<Rightarrow> 'c frame list \<times> 'c ptree" where
  "zfind key C PLeaf = (C, PLeaf)"
| "zfind key C (PNode l a k c r) =
     (if key = k then (C, PNode l a k c r)
      else if key < k then (if l = PLeaf then (C, PNode l a k c r) else zfind key (FL a k c r # C) l)
      else (if r = PLeaf then (C, PNode l a k c r) else zfind key (FR l a k c # C) r))"

fun search_path :: "int \<Rightarrow> 'c ptree \<Rightarrow> nat list" where
  "search_path key PLeaf = []"
| "search_path key (PNode l a k c r) =
     a # (if key = k then [] else if key < k then search_path key l else search_path key r)"

definition splay_rep :: "splay_tree \<Rightarrow> unit ptree \<Rightarrow> bool" where
  "splay_rep s t = (stree (s_heap s) (s_root s) None t \<and> distinct (paddrs t)
      \<and> (\<forall>a\<in>set (paddrs t). a < s_alloc s))"

definition splay_found :: "int \<Rightarrow> unit ptree \<Rightarrow> unit ptree" where
  "splay_found key t = (if t = PLeaf then PLeaf
     else zsplay (fst (zfind key [] t)) (snd (zfind key [] t)))"

text \<open>The descent of \<open>insert\<close>, and the tree \<open>insert\<close> leaves behind when the new object
  is \<open>n\<close>.\<close>

fun zins :: "int \<Rightarrow> 'c frame list \<Rightarrow> 'c ptree \<Rightarrow> 'c frame list \<times> 'c ptree" where
  "zins key C PLeaf = (C, PLeaf)"
| "zins key C (PNode l a k c r) =
     (if key < k then zins key (FL a k c r # C) l
      else if key > k then zins key (FR l a k c # C) r
      else (C, PNode l a k c r))"

fun dir_ok :: "int \<Rightarrow> 'c frame list \<Rightarrow> bool" where
  "dir_ok key [] = True"
| "dir_ok key (FL a k c r # C) = (key < k)"
| "dir_ok key (FR l a k c # C) = (\<not> key < k)"

definition zins_result :: "int \<Rightarrow> nat \<Rightarrow> unit frame list \<Rightarrow> unit ptree \<Rightarrow> unit ptree" where
  "zins_result key n C U = (case zins key C U of
       (C', PLeaf) \<Rightarrow> zsplay C' (PNode PLeaf n key () PLeaf)
     | (C', U') \<Rightarrow> zsplay C' U')"

definition splay_ins :: "int \<Rightarrow> nat \<Rightarrow> unit ptree \<Rightarrow> unit ptree" where
  "splay_ins key n t = (if t = PLeaf then PNode PLeaf n key () PLeaf else zins_result key n [] t)"

text \<open>The walk of \<open>_subtree_maximum\<close>, the join of two trees in \<open>delete\<close>, and the tree
  \<open>delete\<close> leaves behind.\<close>

fun zmax :: "'c frame list \<Rightarrow> 'c ptree \<Rightarrow> 'c frame list \<times> 'c ptree" where
  "zmax C PLeaf = (C, PLeaf)"
| "zmax C (PNode l a k c r) = (if r = PLeaf then (C, PNode l a k c r) else zmax (FR l a k c # C) r)"

fun is_FR :: "'c frame \<Rightarrow> bool" where
  "is_FR (FR l a k c) = True"
| "is_FR (FL a k c r) = False"

definition splay_join :: "unit ptree \<Rightarrow> unit ptree \<Rightarrow> unit ptree" where
  "splay_join L R = (if L = PLeaf then R else if R = PLeaf then L
     else case zmax [] L of (Cm, M) \<Rightarrow>
       (case zsplay Cm M of PNode L' m km c B \<Rightarrow> PNode L' m km c R | PLeaf \<Rightarrow> PLeaf))"

definition splay_del :: "int \<Rightarrow> unit ptree \<Rightarrow> unit ptree" where
  "splay_del key t = (case splay_found key t of
       PNode L x k c R \<Rightarrow> if k = key then splay_join L R else PNode L x k c R
     | PLeaf \<Rightarrow> PLeaf)"

text \<open>The invariant of a Splay tree object: its store holds a tree of distinct objects with
  strictly ascending keys, and \<open>size\<close> counts them.\<close>

definition splay_inv :: "splay_tree \<Rightarrow> unit ptree \<Rightarrow> bool" where
  "splay_inv s t = (splay_rep s t \<and> sorted_wrt (<) (pkeys t) \<and> s_size s = int (length (pkeys t)))"

subsection \<open>Red-Black\<close>

text \<open>\<open>rtree\<close> and \<open>rctx\<close> are \<open>stree\<close> and \<open>sctx\<close> for Red-Black objects: every empty
  position holds the reference to the sentinel \<open>nil\<close>, and \<open>nil\<close> is not a node of the tree.\<close>

fun rptr :: "nat \<Rightarrow> 'c ptree \<Rightarrow> ref" where
  "rptr nil PLeaf = Some nil"
| "rptr nil (PNode l a k c r) = Some a"

fun pcol :: "color ptree \<Rightarrow> color" where
  "pcol PLeaf = BLACK"
| "pcol (PNode l a k c r) = c"

fun rtree :: "(nat \<Rightarrow> rbnode option) \<Rightarrow> nat \<Rightarrow> ref \<Rightarrow> ref \<Rightarrow> color ptree \<Rightarrow> bool" where
  "rtree h nil p par PLeaf = (p = Some nil)"
| "rtree h nil p par (PNode l a k c r) = (p = Some a \<and> a \<noteq> nil \<and>
     (case h a of None \<Rightarrow> False
      | Some n \<Rightarrow> rkey n = Some k \<and> rcolor n = c \<and> rparent n = par
          \<and> rtree h nil (rleft n) (Some a) l \<and> rtree h nil (rright n) (Some a) r))"

fun rctx :: "(nat \<Rightarrow> rbnode option) \<Rightarrow> nat \<Rightarrow> ref \<Rightarrow> color frame list \<Rightarrow> ref \<Rightarrow> ref \<Rightarrow> bool" where
  "rctx h nil root [] p par = (root = p \<and> par = None)"
| "rctx h nil root (FL a k c r # C) p par = (par = Some a \<and> a \<noteq> nil \<and>
     (case h a of None \<Rightarrow> False
      | Some n \<Rightarrow> rkey n = Some k \<and> rcolor n = c \<and> rleft n = p
          \<and> rtree h nil (rright n) (Some a) r \<and> rctx h nil root C (Some a) (rparent n)))"
| "rctx h nil root (FR l a k c # C) p par = (par = Some a \<and> a \<noteq> nil \<and>
     (case h a of None \<Rightarrow> False
      | Some n \<Rightarrow> rkey n = Some k \<and> rcolor n = c \<and> rright n = p
          \<and> rtree h nil (rleft n) (Some a) l \<and> rctx h nil root C (Some a) (rparent n)))"

text \<open>The sentinel object: allocated, black, and not a node of the tree.\<close>

definition nil_ok :: "rb_tree \<Rightarrow> nat \<Rightarrow> bool" where
  "nil_ok s nil = (r_NIL s = Some nil \<and>
     (case r_heap s nil of None \<Rightarrow> False | Some n \<Rightarrow> rcolor n = BLACK))"

definition r_same :: "rb_tree \<Rightarrow> rb_tree \<Rightarrow> nat set \<Rightarrow> bool" where
  "r_same s s' X = (r_NIL s' = r_NIL s \<and> r_size s' = r_size s \<and> r_alloc s' = r_alloc s
     \<and> (\<forall>a. a \<notin> X \<longrightarrow> r_heap s' a = r_heap s a))"

section \<open>AVL: order and balance are kept by insert and delete\<close>

lemma avl_inv_height: "avl_inv t \<Longrightarrow> get_height t = avl_true_height t"
  by (induction t) auto

lemma get_height_nonneg: "avl_inv t \<Longrightarrow> 0 \<le> get_height t"
  by (induction t) auto

lemma get_height_0: "avl_inv t \<Longrightarrow> get_height t = 0 \<longleftrightarrow> t = ALeaf"
  using get_height_nonneg[of "case t of ANode l k h r \<Rightarrow> l"] get_height_nonneg[of "case t of ANode l k h r \<Rightarrow> r"] by (cases t) (auto simp: max_def split: if_splits)

lemma get_height_pos: "avl_inv t \<Longrightarrow> t \<noteq> ALeaf \<Longrightarrow> 1 \<le> get_height t"
  using get_height_nonneg get_height_0 by (metis add_0 linorder_not_less nle_le zless_imp_add1_zle)

lemma rotate_right_inorder: "avl_rotate_right z = Some y \<Longrightarrow> avl_inorder y = avl_inorder z"
  by (cases z rule: avl_left.cases; cases "the (avl_left z)") (auto simp: avl_rotate_right_def)

lemma rotate_left_inorder: "avl_rotate_left z = Some y \<Longrightarrow> avl_inorder y = avl_inorder z"
  by (cases z rule: avl_left.cases; cases "the (avl_right z)") (auto simp: avl_rotate_left_def)

lemma insert_rebalance_inorder:
  "insert_rebalance n key = Some n' \<Longrightarrow> avl_inorder n' = avl_inorder n"
  apply (cases n)
   apply (auto simp: insert_rebalance_def py_and_def Let_def split: if_splits bind_splits dest!: rotate_right_inorder rotate_left_inorder)
  done

lemma delete_rebalance_inorder:
  "delete_rebalance n = Some n' \<Longrightarrow> avl_inorder n' = avl_inorder n"
  apply (cases n)
   apply (auto simp: delete_rebalance_def py_and_def Let_def split: if_splits bind_splits dest!: rotate_right_inorder rotate_left_inorder)
  done


lemma insert_helper_inorder:
  "sorted_wrt (<) (avl_inorder t) \<Longrightarrow> insert_helper t key = Some (t', ins) \<Longrightarrow>
   sorted_wrt (<) (avl_inorder t') \<and> set (avl_inorder t') = insert key (set (avl_inorder t))
   \<and> (ins \<longleftrightarrow> key \<notin> set (avl_inorder t))"
proof (induction t arbitrary: t' ins)
  case ALeaf
  then show ?case by auto
next
  case (ANode l k h r)
  show ?case
  proof (cases "key < k")
    case True
    with ANode.prems obtain l' where 1: "insert_helper l key = Some (l', ins)"
      and 2: "insert_rebalance (ANode l' k h r) key = Some t'"
      by (auto split: bind_splits)
    from ANode.prems have "sorted_wrt (<) (avl_inorder l)" by (simp add: sorted_wrt_append)
    from ANode.IH(1)[OF this 1] insert_rebalance_inorder[OF 2] ANode.prems(1) True
    show ?thesis by (fastforce simp: sorted_wrt_append)
  next
    case False
    show ?thesis
    proof (cases "key > k")
      case True
      with ANode.prems obtain r' where 1: "insert_helper r key = Some (r', ins)"
        and 2: "insert_rebalance (ANode l k h r') key = Some t'"
        by (auto split: bind_splits)
      from ANode.prems have "sorted_wrt (<) (avl_inorder r)" by (simp add: sorted_wrt_append)
      from ANode.IH(2)[OF this 1] insert_rebalance_inorder[OF 2] ANode.prems(1) True
      show ?thesis by (fastforce simp: sorted_wrt_append)
    next
      case False
      with \<open>\<not> key < k\<close> ANode.prems show ?thesis by auto
    qed
  qed
qed

lemma avl_inorder_Nil: "avl_inorder t = [] \<longleftrightarrow> t = ALeaf"
  by (cases t) auto

lemma get_min_node_key:
  "t \<noteq> ALeaf \<Longrightarrow> \<exists>m. get_min_node t = Some m \<and> avl_key m = Some (hd (avl_inorder t))"
  by (induction t) (auto simp: avl_inorder_Nil)


lemma sorted_mid:
  "sorted_wrt (<) (xs @ (k::int) # ys) \<longleftrightarrow>
     sorted_wrt (<) xs \<and> sorted_wrt (<) ys \<and> (\<forall>x\<in>set xs. x < k) \<and> (\<forall>y\<in>set ys. k < y)"
  by (auto simp: sorted_wrt_append) (meson less_trans)

lemma delete_helper_lt:
  "key < k \<Longrightarrow> delete_helper (ANode l k h r) key =
     delete_helper l key \<bind> (\<lambda>l'. delete_rebalance (ANode l' k h r))"
  by simp

lemma delete_helper_gt:
  "key > k \<Longrightarrow> delete_helper (ANode l k h r) key =
     delete_helper r key \<bind> (\<lambda>r'. delete_rebalance (ANode l k h r'))"
  by simp

lemma delete_helper_eq_l: "delete_helper (ANode ALeaf k h r) k = Some r"
  by simp

lemma delete_helper_eq_r: "l \<noteq> ALeaf \<Longrightarrow> delete_helper (ANode l k h ALeaf) k = Some l"
  by simp

lemma delete_helper_eq_2:
  "l \<noteq> ALeaf \<Longrightarrow> r \<noteq> ALeaf \<Longrightarrow> delete_helper (ANode l k h r) k =
     delete_helper r (hd (avl_inorder r)) \<bind> (\<lambda>r'. delete_rebalance (ANode l (hd (avl_inorder r)) h r'))"
  using get_min_node_key[of r] by auto

lemma delete_helper_inorder:
  "sorted_wrt (<) (avl_inorder t) \<Longrightarrow> delete_helper t key = Some t' \<Longrightarrow>
   sorted_wrt (<) (avl_inorder t') \<and> set (avl_inorder t') = set (avl_inorder t) - {key}"
proof (induction t key arbitrary: t' rule: delete_helper.induct)
  case (1 key)
  then show ?case by auto
next
  case (2 l k h r key)
  from "2.prems"(1) have sl: "sorted_wrt (<) (avl_inorder l)" and sr: "sorted_wrt (<) (avl_inorder r)"
    and lk: "\<forall>x\<in>set (avl_inorder l). x < k" and kr: "\<forall>x\<in>set (avl_inorder r). k < x"
    by (simp_all add: sorted_mid)
  consider "key < k" | "key > k" | "key = k" "l = ALeaf" | "key = k" "l \<noteq> ALeaf" "r = ALeaf"
    | "key = k" "l \<noteq> ALeaf" "r \<noteq> ALeaf" by fastforce
  then show ?case
  proof cases
    case 1
    with "2.prems"(2) obtain l' where a: "delete_helper l key = Some l'"
      and b: "delete_rebalance (ANode l' k h r) = Some t'"
      unfolding delete_helper_lt[OF 1] by (auto split: bind_splits)
    from "2.IH"(1)[OF 1 sl a] have "sorted_wrt (<) (avl_inorder l')"
      "set (avl_inorder l') = set (avl_inorder l) - {key}" by simp_all
    with delete_rebalance_inorder[OF b] sr lk kr 1
    show ?thesis by (auto simp: sorted_mid)
  next
    case 2
    with "2.prems"(2) obtain r' where a: "delete_helper r key = Some r'"
      and b: "delete_rebalance (ANode l k h r') = Some t'"
      unfolding delete_helper_gt[OF 2] by (auto split: bind_splits)
    from 2 have nl: "\<not> key < k" by simp
    from "2.IH"(2)[OF nl 2 sr a] have "sorted_wrt (<) (avl_inorder r')"
      "set (avl_inorder r') = set (avl_inorder r) - {key}" by simp_all
    with delete_rebalance_inorder[OF b] sl lk kr 2
    show ?thesis by (auto simp: sorted_mid)
  next
    case 3
    with "2.prems"(2) have "t' = r" by simp
    with sr kr 3 show ?thesis by auto
  next
    case 4
    with "2.prems"(2) have "t' = l" by simp
    with sl lk 4 show ?thesis by auto
  next
    case 5
    from get_min_node_key[OF 5(3)] obtain m where m: "get_min_node r = Some m"
      "avl_key m = Some (hd (avl_inorder r))" by blast
    let ?mk = "hd (avl_inorder r)"
    from "2.prems"(2) obtain r' where a: "delete_helper r ?mk = Some r'"
      and b: "delete_rebalance (ANode l ?mk h r') = Some t'"
      unfolding 5(1) delete_helper_eq_2[OF 5(2,3)] by (auto split: bind_splits)
    have ne: "avl_inorder r \<noteq> []" using 5(3) by (simp add: avl_inorder_Nil)
    from 5 have c: "\<not> key < k" "\<not> key > k" "l \<noteq> ALeaf" "r \<noteq> ALeaf" by auto
    from "2.IH"(3)[OF c m(1) m(2) sr a] have ih: "sorted_wrt (<) (avl_inorder r')"
      "set (avl_inorder r') = set (avl_inorder r) - {?mk}" by simp_all
    have mk_in: "?mk \<in> set (avl_inorder r)" using ne by simp
    have mk_min: "\<forall>x \<in> set (avl_inorder r). x = ?mk \<or> ?mk < x"
      using sr ne by (cases "avl_inorder r") auto
    have kmk: "k < ?mk" using kr mk_in by blast
    have 1: "sorted_wrt (<) (avl_inorder l @ ?mk # avl_inorder r')"
      unfolding sorted_mid using ih sl lk kmk mk_min by fastforce
    have 2: "set (avl_inorder l @ ?mk # avl_inorder r') = set (avl_inorder (ANode l k h r)) - {key}"
      using ih lk kr mk_in 5(1) by auto
    from 1 2 delete_rebalance_inorder[OF b] show ?thesis by simp
  qed
qed


lemma rotate_right_Node:
  "avl_rotate_right (ANode (ANode a yk yh b) zk zh c) =
     Some (ANode a yk (1 + max (get_height a) (1 + max (get_height b) (get_height c)))
             (ANode b zk (1 + max (get_height b) (get_height c)) c))"
  by (simp add: avl_rotate_right_def)

lemma rotate_left_Node:
  "avl_rotate_left (ANode a zk zh (ANode b yk yh c)) =
     Some (ANode (ANode a zk (1 + max (get_height a) (get_height b)) b) yk
             (1 + max (1 + max (get_height a) (get_height b)) (get_height c)) c)"
  by (simp add: avl_rotate_left_def)

lemma avl_inv_cases_pos:
  assumes "avl_inv t" "1 \<le> get_height t"
  obtains l k r where "t = ANode l k (1 + max (get_height l) (get_height r)) r"
    "avl_inv l" "avl_inv r" "\<bar>get_height l - get_height r\<bar> \<le> 1"
  using assms by (cases t) auto

lemma insert_rebalance_balanced:
  assumes "\<bar>get_height l - get_height r\<bar> \<le> 1"
  shows "insert_rebalance (ANode l k h r) key = Some (ANode l k (1 + max (get_height l) (get_height r)) r)"
proof -
  from assms have "\<not> 1 < get_height l - get_height r" "\<not> get_height l - get_height r < - 1"
    by linarith+
  then show ?thesis by (simp add: insert_rebalance_def py_and_def Let_def)
qed

lemma insert_rebalance_left:
  assumes "avl_inv l" "avl_inv r" "get_height l = get_height r + 2" "grew l key"
  shows "\<exists>t'. insert_rebalance (ANode l k h r) key = Some t' \<and> avl_inv t' \<and> get_height t' = get_height l"
proof -
  from get_height_nonneg[OF assms(2)] assms(3) have "1 \<le> get_height l" by simp
  from avl_inv_cases_pos[OF assms(1) this] obtain a lk b where
    l: "l = ANode a lk (1 + max (get_height a) (get_height b)) b" and
    ab: "avl_inv a" "avl_inv b" "\<bar>get_height a - get_height b\<bar> \<le> 1" by blast
  from assms(4) l consider "key < lk" "get_height a = get_height b + 1"
    | "key > lk" "get_height b = get_height a + 1" by (auto simp: grew_def)
  then show ?thesis
  proof cases
    case 1
    with assms(2,3) ab l show ?thesis
      by (simp add: insert_rebalance_def py_and_def rotate_right_Node)
  next
    case 2
    from get_height_nonneg[OF ab(1)] 2 have "1 \<le> get_height b" by simp
    from avl_inv_cases_pos[OF ab(2) this] obtain b1 bk b2 where
      b: "b = ANode b1 bk (1 + max (get_height b1) (get_height b2)) b2" and
      bb: "avl_inv b1" "avl_inv b2" "\<bar>get_height b1 - get_height b2\<bar> \<le> 1" by blast
    have "insert_rebalance (ANode l k h r) key =
        Some (ANode (ANode a lk (1 + max (get_height a) (get_height b1)) b1) bk
               (1 + max (1 + max (get_height a) (get_height b1)) (1 + max (get_height b2) (get_height r)))
               (ANode b2 k (1 + max (get_height b2) (get_height r)) r))"
      using 2 assms(3) unfolding l b
      by (simp add: insert_rebalance_def py_and_def rotate_right_Node rotate_left_Node)
    moreover from 2 assms(2,3) ab bb have
      "avl_inv (ANode (ANode a lk (1 + max (get_height a) (get_height b1)) b1) bk
               (1 + max (1 + max (get_height a) (get_height b1)) (1 + max (get_height b2) (get_height r)))
               (ANode b2 k (1 + max (get_height b2) (get_height r)) r))"
      unfolding l b by (simp; linarith)
    moreover from 2 assms(3) bb have
      "1 + max (1 + max (get_height a) (get_height b1)) (1 + max (get_height b2) (get_height r)) = get_height l"
      unfolding l b by (simp; linarith)
    ultimately show ?thesis by simp
  qed
qed

lemma insert_rebalance_right:
  assumes "avl_inv l" "avl_inv r" "get_height r = get_height l + 2" "grew r key"
  shows "\<exists>t'. insert_rebalance (ANode l k h r) key = Some t' \<and> avl_inv t' \<and> get_height t' = get_height r"
proof -
  from get_height_nonneg[OF assms(1)] assms(3) have "1 \<le> get_height r" by simp
  from avl_inv_cases_pos[OF assms(2) this] obtain a rk b where
    r: "r = ANode a rk (1 + max (get_height a) (get_height b)) b" and
    ab: "avl_inv a" "avl_inv b" "\<bar>get_height a - get_height b\<bar> \<le> 1" by blast
  from assms(4) r consider "key > rk" "get_height b = get_height a + 1"
    | "key < rk" "get_height a = get_height b + 1" by (auto simp: grew_def)
  then show ?thesis
  proof cases
    case 1
    with assms(1,3) ab r show ?thesis
      by (simp add: insert_rebalance_def py_and_def rotate_left_Node)
  next
    case 2
    from get_height_nonneg[OF ab(2)] 2 have "1 \<le> get_height a" by simp
    from avl_inv_cases_pos[OF ab(1) this] obtain a1 ak a2 where
      a: "a = ANode a1 ak (1 + max (get_height a1) (get_height a2)) a2" and
      aa: "avl_inv a1" "avl_inv a2" "\<bar>get_height a1 - get_height a2\<bar> \<le> 1" by blast
    have "insert_rebalance (ANode l k h r) key =
        Some (ANode (ANode l k (1 + max (get_height l) (get_height a1)) a1) ak
               (1 + max (1 + max (get_height l) (get_height a1)) (1 + max (get_height a2) (get_height b)))
               (ANode a2 rk (1 + max (get_height a2) (get_height b)) b))"
      using 2 assms(3) unfolding r a
      by (simp add: insert_rebalance_def py_and_def rotate_right_Node rotate_left_Node)
    moreover from 2 assms(1,3) ab aa have
      "avl_inv (ANode (ANode l k (1 + max (get_height l) (get_height a1)) a1) ak
               (1 + max (1 + max (get_height l) (get_height a1)) (1 + max (get_height a2) (get_height b)))
               (ANode a2 rk (1 + max (get_height a2) (get_height b)) b))"
      unfolding r a by (simp; linarith)
    moreover from 2 assms(3) aa have
      "1 + max (1 + max (get_height l) (get_height a1)) (1 + max (get_height a2) (get_height b)) = get_height r"
      unfolding r a by (simp; linarith)
    ultimately show ?thesis by simp
  qed
qed


lemma insert_helper_avl:
  "avl_inv t \<Longrightarrow> \<exists>t' ins. insert_helper t key = Some (t', ins) \<and> avl_inv t'
     \<and> (get_height t' = get_height t \<or> get_height t' = get_height t + 1)
     \<and> (get_height t' = get_height t + 1 \<longrightarrow> t \<noteq> ALeaf \<longrightarrow> grew t' key)"
proof (induction t)
  case ALeaf
  then show ?case by auto
next
  case (ANode l k h r)
  from ANode.prems have il: "avl_inv l" and ir: "avl_inv r"
    and h: "h = 1 + max (get_height l) (get_height r)"
    and bal: "\<bar>get_height l - get_height r\<bar> \<le> 1" by simp_all
  consider "key < k" | "key > k" | "key = k" by fastforce
  then show ?case
  proof cases
    case 1
    from ANode.IH(1)[OF il] obtain l' ins where
      l': "insert_helper l key = Some (l', ins)" "avl_inv l'"
      "get_height l' = get_height l \<or> get_height l' = get_height l + 1"
      "get_height l' = get_height l + 1 \<longrightarrow> l \<noteq> ALeaf \<longrightarrow> grew l' key" by blast
    have step: "insert_helper (ANode l k h r) key =
       insert_rebalance (ANode l' k h r) key \<bind> (\<lambda>node. Some (node, ins))"
      using 1 l'(1) by simp
    show ?thesis
    proof (cases "get_height l' = get_height r + 2")
      case True
      with l'(3) bal have g: "get_height l' = get_height l + 1" "get_height l = get_height r + 1"
        by linarith+
      from g(2) get_height_nonneg[OF ir] have "l \<noteq> ALeaf" by auto
      with l'(4) g(1) have "grew l' key" by simp
      from insert_rebalance_left[OF l'(2) ir True this, of k h] obtain t' where
        "insert_rebalance (ANode l' k h r) key = Some t'" "avl_inv t'" "get_height t' = get_height l'"
        by blast
      with step g h show ?thesis by simp
    next
      case False
      with l'(3) bal have b': "\<bar>get_height l' - get_height r\<bar> \<le> 1" by linarith
      from insert_rebalance_balanced[OF b', of k h key] step
      have "insert_helper (ANode l k h r) key =
          Some (ANode l' k (1 + max (get_height l') (get_height r)) r, ins)" by simp
      moreover have "avl_inv (ANode l' k (1 + max (get_height l') (get_height r)) r)"
        using l'(2) ir b' by simp
      moreover have "1 + max (get_height l') (get_height r) = h \<or>
         1 + max (get_height l') (get_height r) = h + 1" using l'(3) h by linarith
      moreover have "1 + max (get_height l') (get_height r) = h + 1 \<longrightarrow>
         grew (ANode l' k (1 + max (get_height l') (get_height r)) r) key"
        using l'(3) h b' 1 False bal by (auto simp: grew_def)
      ultimately show ?thesis by simp
    qed
  next
    case 2
    from ANode.IH(2)[OF ir] obtain r' ins where
      r': "insert_helper r key = Some (r', ins)" "avl_inv r'"
      "get_height r' = get_height r \<or> get_height r' = get_height r + 1"
      "get_height r' = get_height r + 1 \<longrightarrow> r \<noteq> ALeaf \<longrightarrow> grew r' key" by blast
    have step: "insert_helper (ANode l k h r) key =
       insert_rebalance (ANode l k h r') key \<bind> (\<lambda>node. Some (node, ins))"
      using 2 r'(1) by simp
    show ?thesis
    proof (cases "get_height r' = get_height l + 2")
      case True
      with r'(3) bal have g: "get_height r' = get_height r + 1" "get_height r = get_height l + 1"
        by linarith+
      from g(2) get_height_nonneg[OF il] have "r \<noteq> ALeaf" by auto
      with r'(4) g(1) have "grew r' key" by simp
      from insert_rebalance_right[OF il r'(2) True this, of k h] obtain t' where
        "insert_rebalance (ANode l k h r') key = Some t'" "avl_inv t'" "get_height t' = get_height r'"
        by blast
      with step g h show ?thesis by simp
    next
      case False
      with r'(3) bal have b': "\<bar>get_height l - get_height r'\<bar> \<le> 1" by linarith
      from insert_rebalance_balanced[OF b', of k h key] step
      have "insert_helper (ANode l k h r) key =
          Some (ANode l k (1 + max (get_height l) (get_height r')) r', ins)" by simp
      moreover have "avl_inv (ANode l k (1 + max (get_height l) (get_height r')) r')"
        using r'(2) il b' by simp
      moreover have "1 + max (get_height l) (get_height r') = h \<or>
         1 + max (get_height l) (get_height r') = h + 1" using r'(3) h by linarith
      moreover have "1 + max (get_height l) (get_height r') = h + 1 \<longrightarrow>
         grew (ANode l k (1 + max (get_height l) (get_height r')) r') key"
        using r'(3) h b' 2 False bal by (auto simp: grew_def)
      ultimately show ?thesis by simp
    qed
  next
    case 3
    with ANode.prems show ?thesis by auto
  qed
qed

lemma delete_rebalance_balanced:
  assumes "\<bar>get_height l - get_height r\<bar> \<le> 1"
  shows "delete_rebalance (ANode l k h r) = Some (ANode l k (1 + max (get_height l) (get_height r)) r)"
proof -
  from assms have "\<not> 1 < get_height l - get_height r" "\<not> get_height l - get_height r < - 1"
    by linarith+
  then show ?thesis by (simp add: delete_rebalance_def Let_def)
qed

lemma delete_rebalance_left:
  assumes "avl_inv l" "avl_inv r" "get_height l = get_height r + 2"
  shows "\<exists>t'. delete_rebalance (ANode l k h r) = Some t' \<and> avl_inv t' \<and>
           (get_height t' = get_height l \<or> get_height t' = get_height l + 1)"
proof -
  from get_height_nonneg[OF assms(2)] assms(3) have "1 \<le> get_height l" by simp
  from avl_inv_cases_pos[OF assms(1) this] obtain a lk b where
    l: "l = ANode a lk (1 + max (get_height a) (get_height b)) b" and
    ab: "avl_inv a" "avl_inv b" "\<bar>get_height a - get_height b\<bar> \<le> 1" by blast
  show ?thesis
  proof (cases "get_height a - get_height b \<ge> 0")
    case True
    with assms(2,3) ab l show ?thesis
      by (simp add: delete_rebalance_def rotate_right_Node; linarith)
  next
    case False
    with ab(3) have g: "get_height b = get_height a + 1" by linarith
    from get_height_nonneg[OF ab(1)] g have "1 \<le> get_height b" by simp
    from avl_inv_cases_pos[OF ab(2) this] obtain b1 bk b2 where
      b: "b = ANode b1 bk (1 + max (get_height b1) (get_height b2)) b2" and
      bb: "avl_inv b1" "avl_inv b2" "\<bar>get_height b1 - get_height b2\<bar> \<le> 1" by blast
    have "delete_rebalance (ANode l k h r) =
        Some (ANode (ANode a lk (1 + max (get_height a) (get_height b1)) b1) bk
               (1 + max (1 + max (get_height a) (get_height b1)) (1 + max (get_height b2) (get_height r)))
               (ANode b2 k (1 + max (get_height b2) (get_height r)) r))"
      using g assms(3) unfolding l b
      by (simp add: delete_rebalance_def rotate_right_Node rotate_left_Node)
    moreover from g assms(2,3) ab bb have
      "avl_inv (ANode (ANode a lk (1 + max (get_height a) (get_height b1)) b1) bk
               (1 + max (1 + max (get_height a) (get_height b1)) (1 + max (get_height b2) (get_height r)))
               (ANode b2 k (1 + max (get_height b2) (get_height r)) r))"
      unfolding l b by (simp; linarith)
    moreover from g assms(3) bb have
      "1 + max (1 + max (get_height a) (get_height b1)) (1 + max (get_height b2) (get_height r)) = get_height l"
      unfolding l b by (simp; linarith)
    ultimately show ?thesis by simp
  qed
qed

lemma delete_rebalance_right:
  assumes "avl_inv l" "avl_inv r" "get_height r = get_height l + 2"
  shows "\<exists>t'. delete_rebalance (ANode l k h r) = Some t' \<and> avl_inv t' \<and>
           (get_height t' = get_height r \<or> get_height t' = get_height r + 1)"
proof -
  from get_height_nonneg[OF assms(1)] assms(3) have "1 \<le> get_height r" by simp
  from avl_inv_cases_pos[OF assms(2) this] obtain a rk b where
    r: "r = ANode a rk (1 + max (get_height a) (get_height b)) b" and
    ab: "avl_inv a" "avl_inv b" "\<bar>get_height a - get_height b\<bar> \<le> 1" by blast
  show ?thesis
  proof (cases "get_height a - get_height b \<le> 0")
    case True
    with assms(1,3) ab r show ?thesis
      by (simp add: delete_rebalance_def rotate_left_Node; linarith)
  next
    case False
    with ab(3) have g: "get_height a = get_height b + 1" by linarith
    from get_height_nonneg[OF ab(2)] g have "1 \<le> get_height a" by simp
    from avl_inv_cases_pos[OF ab(1) this] obtain a1 ak a2 where
      a: "a = ANode a1 ak (1 + max (get_height a1) (get_height a2)) a2" and
      aa: "avl_inv a1" "avl_inv a2" "\<bar>get_height a1 - get_height a2\<bar> \<le> 1" by blast
    have "delete_rebalance (ANode l k h r) =
        Some (ANode (ANode l k (1 + max (get_height l) (get_height a1)) a1) ak
               (1 + max (1 + max (get_height l) (get_height a1)) (1 + max (get_height a2) (get_height b)))
               (ANode a2 rk (1 + max (get_height a2) (get_height b)) b))"
      using g assms(3) unfolding r a
      by (simp add: delete_rebalance_def rotate_right_Node rotate_left_Node)
    moreover from g assms(1,3) ab aa have
      "avl_inv (ANode (ANode l k (1 + max (get_height l) (get_height a1)) a1) ak
               (1 + max (1 + max (get_height l) (get_height a1)) (1 + max (get_height a2) (get_height b)))
               (ANode a2 rk (1 + max (get_height a2) (get_height b)) b))"
      unfolding r a by (simp; linarith)
    moreover from g assms(3) aa have
      "1 + max (1 + max (get_height l) (get_height a1)) (1 + max (get_height a2) (get_height b)) = get_height r"
      unfolding r a by (simp; linarith)
    ultimately show ?thesis by simp
  qed
qed

lemma delete_rebalance_avl:
  assumes "avl_inv l" "avl_inv r" "\<bar>get_height l - get_height r\<bar> \<le> 2"
  shows "\<exists>t'. delete_rebalance (ANode l k h r) = Some t' \<and> avl_inv t' \<and>
     (get_height t' = 1 + max (get_height l) (get_height r) \<or>
      (\<bar>get_height l - get_height r\<bar> = 2 \<and> get_height t' = max (get_height l) (get_height r)))"
proof -
  consider "\<bar>get_height l - get_height r\<bar> \<le> 1" | "get_height l = get_height r + 2"
    | "get_height r = get_height l + 2" using assms(3) by linarith
  then show ?thesis
  proof cases
    case 1
    from delete_rebalance_balanced[OF 1, of k h] assms 1 show ?thesis by simp
  next
    case 2
    from delete_rebalance_left[OF assms(1,2) 2, of k h] 2 show ?thesis by auto
  next
    case 3
    from delete_rebalance_right[OF assms(1,2) 3, of k h] 3 show ?thesis by auto
  qed
qed

lemma delete_helper_avl:
  "avl_inv t \<Longrightarrow> \<exists>t'. delete_helper t key = Some t' \<and> avl_inv t'
     \<and> (get_height t' = get_height t \<or> get_height t' = get_height t - 1)"
proof (induction t key rule: delete_helper.induct)
  case (1 key)
  then show ?case by simp
next
  case (2 l k h r key)
  from "2.prems" have il: "avl_inv l" and ir: "avl_inv r"
    and h: "h = 1 + max (get_height l) (get_height r)"
    and bal: "\<bar>get_height l - get_height r\<bar> \<le> 1" by simp_all
  consider "key < k" | "key > k" | "key = k" "l = ALeaf" | "key = k" "l \<noteq> ALeaf" "r = ALeaf"
    | "key = k" "l \<noteq> ALeaf" "r \<noteq> ALeaf" by fastforce
  then show ?case
  proof cases
    case 1
    from "2.IH"(1)[OF 1 il] obtain l' where l': "delete_helper l key = Some l'" "avl_inv l'"
      "get_height l' = get_height l \<or> get_height l' = get_height l - 1" by blast
    from l'(3) bal have "\<bar>get_height l' - get_height r\<bar> \<le> 2" by linarith
    from delete_rebalance_avl[OF l'(2) ir this, of k h] obtain t' where
      t': "delete_rebalance (ANode l' k h r) = Some t'" "avl_inv t'"
      "get_height t' = 1 + max (get_height l') (get_height r) \<or>
      (\<bar>get_height l' - get_height r\<bar> = 2 \<and> get_height t' = max (get_height l') (get_height r))"
      by blast
    have "delete_helper (ANode l k h r) key = Some t'"
      unfolding delete_helper_lt[OF 1] using l'(1) t'(1) by simp
    moreover have "get_height t' = h \<or> get_height t' = h - 1"
      using t'(3) l'(3) bal h by linarith
    ultimately show ?thesis using t'(2) by simp
  next
    case 2
    from 2 have nl: "\<not> key < k" by simp
    from "2.IH"(2)[OF nl 2 ir] obtain r' where r': "delete_helper r key = Some r'" "avl_inv r'"
      "get_height r' = get_height r \<or> get_height r' = get_height r - 1" by blast
    from r'(3) bal have "\<bar>get_height l - get_height r'\<bar> \<le> 2" by linarith
    from delete_rebalance_avl[OF il r'(2) this, of k h] obtain t' where
      t': "delete_rebalance (ANode l k h r') = Some t'" "avl_inv t'"
      "get_height t' = 1 + max (get_height l) (get_height r') \<or>
      (\<bar>get_height l - get_height r'\<bar> = 2 \<and> get_height t' = max (get_height l) (get_height r'))"
      by blast
    have "delete_helper (ANode l k h r) key = Some t'"
      unfolding delete_helper_gt[OF 2] using r'(1) t'(1) by simp
    moreover have "get_height t' = h \<or> get_height t' = h - 1"
      using t'(3) r'(3) bal h by linarith
    ultimately show ?thesis using t'(2) by simp
  next
    case 3
    with ir h bal get_height_nonneg[OF ir] show ?thesis by (simp; linarith)
  next
    case 4
    with il h bal get_height_nonneg[OF il] show ?thesis by (simp; linarith)
  next
    case 5
    from get_min_node_key[OF 5(3)] obtain m where m: "get_min_node r = Some m"
      "avl_key m = Some (hd (avl_inorder r))" by blast
    let ?mk = "hd (avl_inorder r)"
    from 5 have c: "\<not> key < k" "\<not> key > k" "l \<noteq> ALeaf" "r \<noteq> ALeaf" by auto
    from "2.IH"(3)[OF c m(1) m(2) ir] obtain r' where r': "delete_helper r ?mk = Some r'" "avl_inv r'"
      "get_height r' = get_height r \<or> get_height r' = get_height r - 1" by blast
    from r'(3) bal have "\<bar>get_height l - get_height r'\<bar> \<le> 2" by linarith
    from delete_rebalance_avl[OF il r'(2) this, of ?mk h] obtain t' where
      t': "delete_rebalance (ANode l ?mk h r') = Some t'" "avl_inv t'"
      "get_height t' = 1 + max (get_height l) (get_height r') \<or>
      (\<bar>get_height l - get_height r'\<bar> = 2 \<and> get_height t' = max (get_height l) (get_height r'))"
      by blast
    have "delete_helper (ANode l k h r) key = Some t'"
      unfolding 5(1) delete_helper_eq_2[OF 5(2,3)] using r'(1) t'(1) by simp
    moreover have "get_height t' = h \<or> get_height t' = h - 1"
      using t'(3) r'(3) bal h by linarith
    ultimately show ?thesis using t'(2) by simp
  qed
qed

lemma search_helper_correct:
  "sorted_wrt (<) (avl_inorder t) \<Longrightarrow> search_helper t key \<longleftrightarrow> key \<in> set (avl_inorder t)"
  by (induction t) (auto simp: sorted_mid)

lemma avl_init_inv: "avl_state_inv avl_init"
  by (simp add: avl_state_inv_def avl_init_def)

lemma avl_insert_ok:
  assumes "avl_state_inv t"
  shows "\<exists>t'. avl_insert k t = Some t' \<and> avl_state_inv t'
     \<and> set (avl_inorder (avl_root t')) = insert k (set (avl_inorder (avl_root t)))
     \<and> avl_size t' = (if k \<in> set (avl_inorder (avl_root t)) then avl_size t else avl_size t + 1)"
proof -
  from assms have i: "avl_inv (avl_root t)" and s: "sorted_wrt (<) (avl_inorder (avl_root t))"
    by (simp_all add: avl_state_inv_def)
  from insert_helper_avl[OF i, of k] obtain r' ins where
    r: "insert_helper (avl_root t) k = Some (r', ins)" "avl_inv r'" by blast
  from insert_helper_inorder[OF s r(1)] r show ?thesis
    by (auto simp: avl_insert_def avl_state_inv_def)
qed

lemma avl_delete_ok:
  assumes "avl_state_inv t"
  shows "\<exists>t'. avl_delete k t = Some t' \<and> avl_state_inv t'
     \<and> set (avl_inorder (avl_root t')) = set (avl_inorder (avl_root t)) - {k}
     \<and> avl_size t' = avl_size t - 1"
proof -
  from assms have i: "avl_inv (avl_root t)" and s: "sorted_wrt (<) (avl_inorder (avl_root t))"
    by (simp_all add: avl_state_inv_def)
  from delete_helper_avl[OF i, of k] obtain r' where
    r: "delete_helper (avl_root t) k = Some r'" "avl_inv r'" by blast
  from delete_helper_inorder[OF s r(1)] r show ?thesis
    by (auto simp: avl_delete_def avl_state_inv_def)
qed

lemma avl_apply_ok:
  assumes "avl_state_inv t"
  shows "\<exists>t'. avl_apply x t = Some t' \<and> avl_state_inv t'
     \<and> set (avl_inorder (avl_root t')) = keys_after [x] (set (avl_inorder (avl_root t)))"
proof (cases x)
  case (Insert k)
  from avl_insert_ok[OF assms, of k] show ?thesis unfolding Insert by auto
next
  case (Search k)
  with assms show ?thesis by simp
next
  case (Delete k)
  from avl_delete_ok[OF assms, of k] show ?thesis unfolding Delete by auto
qed

lemma avl_run_ok:
  "avl_state_inv t \<Longrightarrow> \<exists>t'. avl_run xs t = Some t' \<and> avl_state_inv t'
     \<and> set (avl_inorder (avl_root t')) = keys_after xs (set (avl_inorder (avl_root t)))"
proof (induction xs arbitrary: t)
  case Nil
  then show ?case by simp
next
  case (Cons x xs)
  from avl_apply_ok[OF Cons.prems, of x] obtain t1 where
    t1: "avl_apply x t = Some t1" "avl_state_inv t1"
    "set (avl_inorder (avl_root t1)) = keys_after [x] (set (avl_inorder (avl_root t)))" by blast
  from Cons.IH[OF t1(2)] t1(1,3) show ?case by (cases x) auto
qed

lemma avl_inv_balanced: "avl_inv t \<Longrightarrow> avl_balanced t \<and> avl_heights_stored t"
  by (induction t) (auto simp: avl_inv_height)

section \<open>Splay: the store operations refine operations on tree values\<close>

lemma pkeys_plug: "pkeys (plug C t) = ckeys_l C @ pkeys t @ ckeys_r C"
  by (induction C arbitrary: t rule: ckeys_l.induct) auto

lemma paddrs_plug: "paddrs (plug C t) = caddrs_l C @ paddrs t @ caddrs_r C"
  by (induction C arbitrary: t rule: caddrs_l.induct) auto

lemma stree_ptr: "stree h p par t \<Longrightarrow> p = pptr t"
  by (cases t) auto

lemma pptr_in: "pptr t = Some a \<Longrightarrow> a \<in> set (paddrs t)"
  by (cases t) auto

lemma stree_frame:
  "stree h p par t \<Longrightarrow> (\<forall>a\<in>set (paddrs t). h' a = h a) \<Longrightarrow> stree h' p par t"
  by (induction t arbitrary: p par) (auto split: option.splits)

lemma sctx_frame:
  "sctx h root C p par \<Longrightarrow> (\<forall>a\<in>set (caddrs_l C @ caddrs_r C). h' a = h a) \<Longrightarrow> sctx h' root C p par"
  by (induction C arbitrary: p par rule: caddrs_l.induct) (auto split: option.splits intro: stree_frame)

lemma stree_at_ptr: "stree h p par t \<Longrightarrow> stree h (pptr t) par t"
  by (cases t) auto

lemma stree_plug:
  "stree h root None (plug C t) \<longleftrightarrow> (\<exists>par. sctx h root C (pptr t) par \<and> stree h (pptr t) par t)"
proof (induction C arbitrary: t rule: caddrs_l.induct)
  case 1
  then show ?case by (auto dest: stree_ptr)
next
  case (2 a k c r C)
  show ?case
    unfolding plug.simps fill.simps 2
    by (cases "h a") (auto dest: stree_ptr intro: stree_at_ptr)
next
  case (3 l a k c C)
  show ?case
    unfolding plug.simps fill.simps 3
    by (cases "h a") (auto dest: stree_ptr intro: stree_at_ptr)
qed


lemma stree_PNode:
  "stree h p par (PNode l a k c r) \<longleftrightarrow> p = Some a \<and>
     (\<exists>n. h a = Some n \<and> skey n = k \<and> sparent n = par
          \<and> stree h (sleft n) (Some a) l \<and> stree h (sright n) (Some a) r)"
  by (auto split: option.splits)

lemma sctx_FL:
  "sctx h root (FL a k c r # C) p par \<longleftrightarrow> par = Some a \<and>
     (\<exists>n. h a = Some n \<and> skey n = k \<and> sleft n = p
          \<and> stree h (sright n) (Some a) r \<and> sctx h root C (Some a) (sparent n))"
  by (auto split: option.splits)

lemma sctx_FR:
  "sctx h root (FR l a k c # C) p par \<longleftrightarrow> par = Some a \<and>
     (\<exists>n. h a = Some n \<and> skey n = k \<and> sright n = p
          \<and> stree h (sleft n) (Some a) l \<and> sctx h root C (Some a) (sparent n))"
  by (auto split: option.splits)

declare stree.simps(2) [simp del] sctx.simps(2,3) [simp del]
declare stree_PNode [simp] sctx_FL [simp] sctx_FR [simp]

lemmas s_prims = s_get_def s_put_def s_key_def s_left_def s_right_def s_parent_def
  s_set_left_def s_set_right_def s_set_parent_def

lemma stree_upd [simp]:
  "a \<notin> set (paddrs t) \<Longrightarrow> stree (h(a \<mapsto> n)) p par t = stree h p par t"
  by (induction t arbitrary: p par) (auto split: option.splits)

lemma sctx_upd [simp]:
  "a \<notin> set (caddrs_l C) \<Longrightarrow> a \<notin> set (caddrs_r C) \<Longrightarrow>
   sctx (h(a \<mapsto> n)) root C p par = sctx h root C p par"
  by (induction C arbitrary: p par rule: caddrs_l.induct) (auto split: option.splits)

lemma pptr_notin [simp]: "a \<notin> set (paddrs t) \<Longrightarrow> pptr t \<noteq> Some a"
  by (cases t) auto

lemma pptr_notin' [simp]: "a \<notin> set (paddrs t) \<Longrightarrow> Some a \<noteq> pptr t"
  by (cases t) auto

lemma splay_rotate_right_rep:
  assumes "sctx (s_heap s) (s_root s) C (Some x) par"
    "stree (s_heap s) (Some x) par (PNode (PNode A y ky cy B) x kx cx R)"
    "distinct (caddrs_l C @ paddrs (PNode (PNode A y ky cy B) x kx cx R) @ caddrs_r C)"
  shows "\<exists>s'. splay_rotate_right (Some x) s = Some s'
     \<and> sctx (s_heap s') (s_root s') C (Some y) par
     \<and> stree (s_heap s') (Some y) par (PNode A y ky cy (PNode B x kx cx R))
     \<and> s_size s' = s_size s \<and> s_alloc s' = s_alloc s
     \<and> (\<forall>a. a \<notin> set (caddrs_l C @ paddrs (PNode (PNode A y ky cy B) x kx cx R) @ caddrs_r C)
            \<longrightarrow> s_heap s' a = s_heap s a)"
proof -
  from assms(2) obtain xn yn where
    xn: "s_heap s x = Some xn" "skey xn = kx" "sparent xn = par" "sleft xn = Some y"
      "stree (s_heap s) (sright xn) (Some x) R" and
    yn: "s_heap s y = Some yn" "skey yn = ky" "sparent yn = Some x"
      "stree (s_heap s) (sleft yn) (Some y) A" "stree (s_heap s) (sright yn) (Some y) B"
    by auto
  note pA = stree_ptr[OF yn(4)] and pB = stree_ptr[OF yn(5)] and pR = stree_ptr[OF xn(5)]
  show ?thesis
  proof (cases C rule: caddrs_l.cases)
    case 1
    with assms(1) have par: "par = None" "s_root s = Some x" by auto
    show ?thesis
    proof (cases B)
      case PLeaf
      with pB have "sright yn = None" by simp
      with xn yn assms(3) par 1 PLeaf pA pR show ?thesis
        by (simp add: splay_rotate_right_def s_prims)
    next
      case (PNode B1 b kb cb B2)
      with yn(5) obtain bn where bn: "sright yn = Some b" "s_heap s b = Some bn" "skey bn = kb"
        "stree (s_heap s) (sleft bn) (Some b) B1" "stree (s_heap s) (sright bn) (Some b) B2"
        by (auto simp: stree_PNode)
      with xn yn assms(3) par 1 PNode pA pR show ?thesis
        by (simp add: splay_rotate_right_def s_prims)
    qed
  next
    case (2 pa kp cp Rp C')
    with assms(1) obtain pn where par: "par = Some pa" and
      pn: "s_heap s pa = Some pn" "skey pn = kp" "sleft pn = Some x"
        "stree (s_heap s) (sright pn) (Some pa) Rp" "sctx (s_heap s) (s_root s) C' (Some pa) (sparent pn)"
      by auto
    note pRp = stree_ptr[OF pn(4)]
    show ?thesis
    proof (cases B)
      case PLeaf
      with pB have "sright yn = None" by simp
      with xn yn pn assms(3) par 2 PLeaf pA pR pRp show ?thesis
        by (simp add: splay_rotate_right_def s_prims)
    next
      case (PNode B1 b kb cb B2)
      with yn(5) obtain bn where bn: "sright yn = Some b" "s_heap s b = Some bn" "skey bn = kb"
        "stree (s_heap s) (sleft bn) (Some b) B1" "stree (s_heap s) (sright bn) (Some b) B2"
        by auto
      with xn yn pn assms(3) par 2 PNode pA pR pRp show ?thesis
        by (simp add: splay_rotate_right_def s_prims)
    qed
  next
    case (3 Lp pa kp cp C')
    with assms(1) obtain pn where par: "par = Some pa" and
      pn: "s_heap s pa = Some pn" "skey pn = kp" "sright pn = Some x"
        "stree (s_heap s) (sleft pn) (Some pa) Lp" "sctx (s_heap s) (s_root s) C' (Some pa) (sparent pn)"
      by auto
    note pLp = stree_ptr[OF pn(4)]
    show ?thesis
    proof (cases B)
      case PLeaf
      with pB have "sright yn = None" by simp
      with xn yn pn assms(3) par 3 PLeaf pA pR pLp show ?thesis
        by (simp add: splay_rotate_right_def s_prims)
    next
      case (PNode B1 b kb cb B2)
      with yn(5) obtain bn where bn: "sright yn = Some b" "s_heap s b = Some bn" "skey bn = kb"
        "stree (s_heap s) (sleft bn) (Some b) B1" "stree (s_heap s) (sright bn) (Some b) B2"
        by auto
      with xn yn pn assms(3) par 3 PNode pA pR pLp show ?thesis
        by (simp add: splay_rotate_right_def s_prims)
    qed
  qed
qed


lemma splay_rotate_left_rep:
  assumes "sctx (s_heap s) (s_root s) C (Some x) par"
    "stree (s_heap s) (Some x) par (PNode L x kx cx (PNode B y ky cy A))"
    "distinct (caddrs_l C @ paddrs (PNode L x kx cx (PNode B y ky cy A)) @ caddrs_r C)"
  shows "\<exists>s'. splay_rotate_left (Some x) s = Some s'
     \<and> sctx (s_heap s') (s_root s') C (Some y) par
     \<and> stree (s_heap s') (Some y) par (PNode (PNode L x kx cx B) y ky cy A)
     \<and> s_size s' = s_size s \<and> s_alloc s' = s_alloc s
     \<and> (\<forall>a. a \<notin> set (caddrs_l C @ paddrs (PNode L x kx cx (PNode B y ky cy A)) @ caddrs_r C)
            \<longrightarrow> s_heap s' a = s_heap s a)"
proof -
  from assms(2) obtain xn yn where
    xn: "s_heap s x = Some xn" "skey xn = kx" "sparent xn = par" "sright xn = Some y"
      "stree (s_heap s) (sleft xn) (Some x) L" and
    yn: "s_heap s y = Some yn" "skey yn = ky" "sparent yn = Some x"
      "stree (s_heap s) (sright yn) (Some y) A" "stree (s_heap s) (sleft yn) (Some y) B"
    by auto
  note pA = stree_ptr[OF yn(4)] and pB = stree_ptr[OF yn(5)] and pL = stree_ptr[OF xn(5)]
  show ?thesis
  proof (cases C rule: caddrs_l.cases)
    case 1
    with assms(1) have par: "par = None" "s_root s = Some x" by auto
    show ?thesis
    proof (cases B)
      case PLeaf
      with pB have "sleft yn = None" by simp
      with xn yn assms(3) par 1 PLeaf pA pL show ?thesis
        by (simp add: splay_rotate_left_def s_prims)
    next
      case (PNode B1 b kb cb B2)
      with yn(5) obtain bn where bn: "sleft yn = Some b" "s_heap s b = Some bn" "skey bn = kb"
        "stree (s_heap s) (sleft bn) (Some b) B1" "stree (s_heap s) (sright bn) (Some b) B2"
        by auto
      with xn yn assms(3) par 1 PNode pA pL show ?thesis
        by (simp add: splay_rotate_left_def s_prims)
    qed
  next
    case (2 pa kp cp Rp C')
    with assms(1) obtain pn where par: "par = Some pa" and
      pn: "s_heap s pa = Some pn" "skey pn = kp" "sleft pn = Some x"
        "stree (s_heap s) (sright pn) (Some pa) Rp" "sctx (s_heap s) (s_root s) C' (Some pa) (sparent pn)"
      by auto
    note pRp = stree_ptr[OF pn(4)]
    show ?thesis
    proof (cases B)
      case PLeaf
      with pB have "sleft yn = None" by simp
      with xn yn pn assms(3) par 2 PLeaf pA pL pRp show ?thesis
        by (simp add: splay_rotate_left_def s_prims)
    next
      case (PNode B1 b kb cb B2)
      with yn(5) obtain bn where bn: "sleft yn = Some b" "s_heap s b = Some bn" "skey bn = kb"
        "stree (s_heap s) (sleft bn) (Some b) B1" "stree (s_heap s) (sright bn) (Some b) B2"
        by auto
      with xn yn pn assms(3) par 2 PNode pA pL pRp show ?thesis
        by (simp add: splay_rotate_left_def s_prims)
    qed
  next
    case (3 Lp pa kp cp C')
    with assms(1) obtain pn where par: "par = Some pa" and
      pn: "s_heap s pa = Some pn" "skey pn = kp" "sright pn = Some x"
        "stree (s_heap s) (sleft pn) (Some pa) Lp" "sctx (s_heap s) (s_root s) C' (Some pa) (sparent pn)"
      by auto
    note pLp = stree_ptr[OF pn(4)]
    show ?thesis
    proof (cases B)
      case PLeaf
      with pB have "sleft yn = None" by simp
      with xn yn pn assms(3) par 3 PLeaf pA pL pLp show ?thesis
        by (simp add: splay_rotate_left_def s_prims)
    next
      case (PNode B1 b kb cb B2)
      with yn(5) obtain bn where bn: "sleft yn = Some b" "s_heap s b = Some bn" "skey bn = kb"
        "stree (s_heap s) (sleft bn) (Some b) B1" "stree (s_heap s) (sright bn) (Some b) B2"
        by auto
      with xn yn pn assms(3) par 3 PNode pA pL pLp show ?thesis
        by (simp add: splay_rotate_left_def s_prims)
    qed
  qed
qed

lemma pkeys_zsplay: "t \<noteq> PLeaf \<Longrightarrow> pkeys (zsplay C t) = pkeys (plug C t)"
  by (induction C t rule: zsplay.induct) (auto simp: pkeys_plug)

lemma paddrs_zsplay: "t \<noteq> PLeaf \<Longrightarrow> paddrs (zsplay C t) = paddrs (plug C t)"
  by (induction C t rule: zsplay.induct) (auto simp: paddrs_plug)

lemma pptr_zsplay: "t \<noteq> PLeaf \<Longrightarrow> pptr (zsplay C t) = pptr t"
  by (induction C t rule: zsplay.induct) auto

lemma splay_step_zig_l:
  assumes "sctx (s_heap s) (s_root s) [FL p kp cp R] (Some x) par"
    "stree (s_heap s) (Some x) par (PNode A x kx cx B)"
    "distinct (caddrs_l [FL p kp cp R] @ paddrs (PNode A x kx cx B) @ caddrs_r [FL p kp cp R])"
  shows "\<exists>s'. splay_step (Some x) s = Some s'
     \<and> sctx (s_heap s') (s_root s') [] (Some x) None
     \<and> stree (s_heap s') (Some x) None (PNode A x kx cx (PNode B p kp cp R))
     \<and> s_size s' = s_size s \<and> s_alloc s' = s_alloc s
     \<and> (\<forall>a. a \<notin> set (caddrs_l [FL p kp cp R] @ paddrs (PNode A x kx cx B) @ caddrs_r [FL p kp cp R])
            \<longrightarrow> s_heap s' a = s_heap s a)"
proof -
  from assms(1) obtain pn where par: "par = Some p" and
    pn: "s_heap s p = Some pn" "skey pn = kp" "sleft pn = Some x"
      "stree (s_heap s) (sright pn) (Some p) R" "sparent pn = None" "s_root s = Some p"
    by auto
  from assms(2) obtain xn where xn: "s_heap s x = Some xn" "sparent xn = par" by auto
  have ev: "splay_step (Some x) s = splay_rotate_right (Some p) s"
    using pn xn par by (simp add: splay_step_def s_prims)
  have 1: "sctx (s_heap s) (s_root s) [] (Some p) None" using pn by simp
  have 2: "stree (s_heap s) (Some p) None (PNode (PNode A x kx cx B) p kp cp R)"
    using pn assms(2) par by simp
  have 3: "distinct (caddrs_l [] @ paddrs (PNode (PNode A x kx cx B) p kp cp R) @ caddrs_r [])"
    using assms(3) by simp
  from splay_rotate_right_rep[OF 1 2 3] ev show ?thesis by auto
qed


lemma splay_step_zig_r:
  assumes "sctx (s_heap s) (s_root s) [FR L p kp cp] (Some x) par"
    "stree (s_heap s) (Some x) par (PNode A x kx cx B)"
    "distinct (caddrs_l [FR L p kp cp] @ paddrs (PNode A x kx cx B) @ caddrs_r [FR L p kp cp])"
  shows "\<exists>s'. splay_step (Some x) s = Some s'
     \<and> sctx (s_heap s') (s_root s') [] (Some x) None
     \<and> stree (s_heap s') (Some x) None (PNode (PNode L p kp cp A) x kx cx B)
     \<and> s_size s' = s_size s \<and> s_alloc s' = s_alloc s
     \<and> (\<forall>a. a \<notin> set (caddrs_l [FR L p kp cp] @ paddrs (PNode A x kx cx B) @ caddrs_r [FR L p kp cp])
            \<longrightarrow> s_heap s' a = s_heap s a)"
proof -
  from assms(1) obtain pn where par: "par = Some p" and
    pn: "s_heap s p = Some pn" "skey pn = kp" "sright pn = Some x"
      "stree (s_heap s) (sleft pn) (Some p) L" "sparent pn = None" "s_root s = Some p"
    by auto
  from assms(2) obtain xn where xn: "s_heap s x = Some xn" "sparent xn = par" by auto
  note pL = stree_ptr[OF pn(4)]
  have ev: "splay_step (Some x) s = splay_rotate_left (Some p) s"
    using pn xn par pL assms(3) by (simp add: splay_step_def s_prims)
  have 1: "sctx (s_heap s) (s_root s) [] (Some p) None" using pn by simp
  have 2: "stree (s_heap s) (Some p) None (PNode L p kp cp (PNode A x kx cx B))"
    using pn assms(2) par by simp
  have 3: "distinct (caddrs_l [] @ paddrs (PNode L p kp cp (PNode A x kx cx B)) @ caddrs_r [])"
    using assms(3) by simp
  from splay_rotate_left_rep[OF 1 2 3] ev show ?thesis by auto
qed

lemma splay_step_zigzig_l:
  assumes "sctx (s_heap s) (s_root s) (FL p kp cp Rp # FL g kg cg Rg # C) (Some x) par"
    "stree (s_heap s) (Some x) par (PNode A x kx cx B)"
    "distinct (caddrs_l (FL p kp cp Rp # FL g kg cg Rg # C) @ paddrs (PNode A x kx cx B)
       @ caddrs_r (FL p kp cp Rp # FL g kg cg Rg # C))"
  shows "\<exists>s' par'. splay_step (Some x) s = Some s'
     \<and> sctx (s_heap s') (s_root s') C (Some x) par'
     \<and> stree (s_heap s') (Some x) par' (PNode A x kx cx (PNode B p kp cp (PNode Rp g kg cg Rg)))
     \<and> s_size s' = s_size s \<and> s_alloc s' = s_alloc s
     \<and> (\<forall>a. a \<notin> set (caddrs_l (FL p kp cp Rp # FL g kg cg Rg # C) @ paddrs (PNode A x kx cx B)
              @ caddrs_r (FL p kp cp Rp # FL g kg cg Rg # C))
            \<longrightarrow> s_heap s' a = s_heap s a)"
proof -
  from assms(1) obtain pn gn where par: "par = Some p" and
    pn: "s_heap s p = Some pn" "skey pn = kp" "sleft pn = Some x"
      "stree (s_heap s) (sright pn) (Some p) Rp" "sparent pn = Some g" and
    gn: "s_heap s g = Some gn" "skey gn = kg" "sleft gn = Some p"
      "stree (s_heap s) (sright gn) (Some g) Rg"
      "sctx (s_heap s) (s_root s) C (Some g) (sparent gn)"
    by auto
  from assms(2) obtain xn where xn: "s_heap s x = Some xn" "sparent xn = par" by auto
  have ev: "splay_step (Some x) s = do {
         s1 \<leftarrow> splay_rotate_right (Some g) s;
         xp \<leftarrow> s_parent s1 (Some x);
         splay_rotate_right xp s1 }"
    using pn gn xn par assms(3) by (simp add: splay_step_def s_prims py_and_def)
  have 2: "stree (s_heap s) (Some g) (sparent gn)
       (PNode (PNode (PNode A x kx cx B) p kp cp Rp) g kg cg Rg)"
    using pn gn assms(2) par by simp
  have 3: "distinct (caddrs_l C @ paddrs (PNode (PNode (PNode A x kx cx B) p kp cp Rp) g kg cg Rg)
      @ caddrs_r C)"
    using assms(3) by simp
  from splay_rotate_right_rep[OF gn(5) 2 3] obtain s1 where
    s1: "splay_rotate_right (Some g) s = Some s1"
      "sctx (s_heap s1) (s_root s1) C (Some p) (sparent gn)"
      "stree (s_heap s1) (Some p) (sparent gn)
         (PNode (PNode A x kx cx B) p kp cp (PNode Rp g kg cg Rg))"
      "s_size s1 = s_size s" "s_alloc s1 = s_alloc s"
      "\<forall>a. a \<notin> set (caddrs_l C @ paddrs (PNode (PNode (PNode A x kx cx B) p kp cp Rp) g kg cg Rg)
          @ caddrs_r C) \<longrightarrow> s_heap s1 a = s_heap s a"
    by blast
  from s1(3) have xp: "s_parent s1 (Some x) = Some (Some p)" by (auto simp: s_prims)
  have 4: "distinct (caddrs_l C @ paddrs (PNode (PNode A x kx cx B) p kp cp (PNode Rp g kg cg Rg))
      @ caddrs_r C)"
    using assms(3) by simp
  from splay_rotate_right_rep[OF s1(2) s1(3) 4] obtain s2 where
    s2: "splay_rotate_right (Some p) s1 = Some s2"
      "sctx (s_heap s2) (s_root s2) C (Some x) (sparent gn)"
      "stree (s_heap s2) (Some x) (sparent gn)
         (PNode A x kx cx (PNode B p kp cp (PNode Rp g kg cg Rg)))"
      "s_size s2 = s_size s1" "s_alloc s2 = s_alloc s1"
      "\<forall>a. a \<notin> set (caddrs_l C @ paddrs (PNode (PNode A x kx cx B) p kp cp (PNode Rp g kg cg Rg))
          @ caddrs_r C) \<longrightarrow> s_heap s2 a = s_heap s1 a"
    by blast
  have "splay_step (Some x) s = Some s2" using ev s1(1) xp s2(1) by simp
  moreover have "\<forall>a. a \<notin> set (caddrs_l (FL p kp cp Rp # FL g kg cg Rg # C) @ paddrs (PNode A x kx cx B)
              @ caddrs_r (FL p kp cp Rp # FL g kg cg Rg # C)) \<longrightarrow> s_heap s2 a = s_heap s a"
    using s1(6) s2(6) by auto
  ultimately show ?thesis using s2(2,3,4,5) s1(4,5) by auto
qed


lemma splay_step_zigzig_r:
  assumes "sctx (s_heap s) (s_root s) (FR Lp p kp cp # FR Lg g kg cg # C) (Some x) par"
    "stree (s_heap s) (Some x) par (PNode A x kx cx B)"
    "distinct (caddrs_l (FR Lp p kp cp # FR Lg g kg cg # C) @ paddrs (PNode A x kx cx B)
       @ caddrs_r (FR Lp p kp cp # FR Lg g kg cg # C))"
  shows "\<exists>s' par'. splay_step (Some x) s = Some s'
     \<and> sctx (s_heap s') (s_root s') C (Some x) par'
     \<and> stree (s_heap s') (Some x) par' (PNode (PNode (PNode Lg g kg cg Lp) p kp cp A) x kx cx B)
     \<and> s_size s' = s_size s \<and> s_alloc s' = s_alloc s
     \<and> (\<forall>a. a \<notin> set (caddrs_l (FR Lp p kp cp # FR Lg g kg cg # C) @ paddrs (PNode A x kx cx B)
              @ caddrs_r (FR Lp p kp cp # FR Lg g kg cg # C))
            \<longrightarrow> s_heap s' a = s_heap s a)"
proof -
  from assms(1) obtain pn gn where par: "par = Some p" and
    pn: "s_heap s p = Some pn" "skey pn = kp" "sright pn = Some x"
      "stree (s_heap s) (sleft pn) (Some p) Lp" "sparent pn = Some g" and
    gn: "s_heap s g = Some gn" "skey gn = kg" "sright gn = Some p"
      "stree (s_heap s) (sleft gn) (Some g) Lg"
      "sctx (s_heap s) (s_root s) C (Some g) (sparent gn)"
    by auto
  from assms(2) obtain xn where xn: "s_heap s x = Some xn" "sparent xn = par" by auto
  note pLp = stree_ptr[OF pn(4)] and pLg = stree_ptr[OF gn(4)]
  have ev: "splay_step (Some x) s = do {
         s1 \<leftarrow> splay_rotate_left (Some g) s;
         xp \<leftarrow> s_parent s1 (Some x);
         splay_rotate_left xp s1 }"
    using pn gn xn par pLp pLg assms(3) by (simp add: splay_step_def s_prims py_and_def)
  have 2: "stree (s_heap s) (Some g) (sparent gn)
       (PNode Lg g kg cg (PNode Lp p kp cp (PNode A x kx cx B)))"
    using pn gn assms(2) par by simp
  have 3: "distinct (caddrs_l C @ paddrs (PNode Lg g kg cg (PNode Lp p kp cp (PNode A x kx cx B)))
      @ caddrs_r C)"
    using assms(3) by simp
  from splay_rotate_left_rep[OF gn(5) 2 3] obtain s1 where
    s1: "splay_rotate_left (Some g) s = Some s1"
      "sctx (s_heap s1) (s_root s1) C (Some p) (sparent gn)"
      "stree (s_heap s1) (Some p) (sparent gn)
         (PNode (PNode Lg g kg cg Lp) p kp cp (PNode A x kx cx B))"
      "s_size s1 = s_size s" "s_alloc s1 = s_alloc s"
      "\<forall>a. a \<notin> set (caddrs_l C @ paddrs (PNode Lg g kg cg (PNode Lp p kp cp (PNode A x kx cx B)))
          @ caddrs_r C) \<longrightarrow> s_heap s1 a = s_heap s a"
    by blast
  from s1(3) have xp: "s_parent s1 (Some x) = Some (Some p)" by (auto simp: s_prims)
  have 4: "distinct (caddrs_l C @ paddrs (PNode (PNode Lg g kg cg Lp) p kp cp (PNode A x kx cx B))
      @ caddrs_r C)"
    using assms(3) by simp
  from splay_rotate_left_rep[OF s1(2) s1(3) 4] obtain s2 where
    s2: "splay_rotate_left (Some p) s1 = Some s2"
      "sctx (s_heap s2) (s_root s2) C (Some x) (sparent gn)"
      "stree (s_heap s2) (Some x) (sparent gn)
         (PNode (PNode (PNode Lg g kg cg Lp) p kp cp A) x kx cx B)"
      "s_size s2 = s_size s1" "s_alloc s2 = s_alloc s1"
      "\<forall>a. a \<notin> set (caddrs_l C @ paddrs (PNode (PNode Lg g kg cg Lp) p kp cp (PNode A x kx cx B))
          @ caddrs_r C) \<longrightarrow> s_heap s2 a = s_heap s1 a"
    by blast
  have "splay_step (Some x) s = Some s2" using ev s1(1) xp s2(1) by simp
  moreover have "\<forall>a. a \<notin> set (caddrs_l (FR Lp p kp cp # FR Lg g kg cg # C) @ paddrs (PNode A x kx cx B)
              @ caddrs_r (FR Lp p kp cp # FR Lg g kg cg # C)) \<longrightarrow> s_heap s2 a = s_heap s a"
    using s1(6) s2(6) by auto
  ultimately show ?thesis using s2(2,3,4,5) s1(4,5) by auto
qed

lemma splay_step_zigzag_rl:
  assumes "sctx (s_heap s) (s_root s) (FR Lp p kp cp # FL g kg cg Rg # C) (Some x) par"
    "stree (s_heap s) (Some x) par (PNode A x kx cx B)"
    "distinct (caddrs_l (FR Lp p kp cp # FL g kg cg Rg # C) @ paddrs (PNode A x kx cx B)
       @ caddrs_r (FR Lp p kp cp # FL g kg cg Rg # C))"
  shows "\<exists>s' par'. splay_step (Some x) s = Some s'
     \<and> sctx (s_heap s') (s_root s') C (Some x) par'
     \<and> stree (s_heap s') (Some x) par' (PNode (PNode Lp p kp cp A) x kx cx (PNode B g kg cg Rg))
     \<and> s_size s' = s_size s \<and> s_alloc s' = s_alloc s
     \<and> (\<forall>a. a \<notin> set (caddrs_l (FR Lp p kp cp # FL g kg cg Rg # C) @ paddrs (PNode A x kx cx B)
              @ caddrs_r (FR Lp p kp cp # FL g kg cg Rg # C))
            \<longrightarrow> s_heap s' a = s_heap s a)"
proof -
  from assms(1) obtain pn gn where par: "par = Some p" and
    pn: "s_heap s p = Some pn" "skey pn = kp" "sright pn = Some x"
      "stree (s_heap s) (sleft pn) (Some p) Lp" "sparent pn = Some g" and
    gn: "s_heap s g = Some gn" "skey gn = kg" "sleft gn = Some p"
      "stree (s_heap s) (sright gn) (Some g) Rg"
      "sctx (s_heap s) (s_root s) C (Some g) (sparent gn)"
    by auto
  from assms(2) obtain xn where xn: "s_heap s x = Some xn" "sparent xn = par" by auto
  note pLp = stree_ptr[OF pn(4)] and pRg = stree_ptr[OF gn(4)]
  have ev: "splay_step (Some x) s = do {
         s1 \<leftarrow> splay_rotate_left (Some p) s;
         xp \<leftarrow> s_parent s1 (Some x);
         splay_rotate_right xp s1 }"
    using pn gn xn par pLp pRg assms(3) by (simp add: splay_step_def s_prims py_and_def)
  have 1: "sctx (s_heap s) (s_root s) (FL g kg cg Rg # C) (Some p) (Some g)"
    using gn by simp
  have 2: "stree (s_heap s) (Some p) (Some g) (PNode Lp p kp cp (PNode A x kx cx B))"
    using pn assms(2) par by simp
  have 3: "distinct (caddrs_l (FL g kg cg Rg # C) @ paddrs (PNode Lp p kp cp (PNode A x kx cx B))
      @ caddrs_r (FL g kg cg Rg # C))"
    using assms(3) by simp
  from splay_rotate_left_rep[OF 1 2 3] obtain s1 where
    s1: "splay_rotate_left (Some p) s = Some s1"
      "sctx (s_heap s1) (s_root s1) (FL g kg cg Rg # C) (Some x) (Some g)"
      "stree (s_heap s1) (Some x) (Some g) (PNode (PNode Lp p kp cp A) x kx cx B)"
      "s_size s1 = s_size s" "s_alloc s1 = s_alloc s"
      "\<forall>a. a \<notin> set (caddrs_l (FL g kg cg Rg # C) @ paddrs (PNode Lp p kp cp (PNode A x kx cx B))
          @ caddrs_r (FL g kg cg Rg # C)) \<longrightarrow> s_heap s1 a = s_heap s a"
    by blast
  from s1(3) have xp: "s_parent s1 (Some x) = Some (Some g)" by (auto simp: s_prims)
  from s1(2) obtain gn1 where gn1: "s_heap s1 g = Some gn1" "skey gn1 = kg" "sleft gn1 = Some x"
      "stree (s_heap s1) (sright gn1) (Some g) Rg"
      "sctx (s_heap s1) (s_root s1) C (Some g) (sparent gn1)" by auto
  have 5: "stree (s_heap s1) (Some g) (sparent gn1)
      (PNode (PNode (PNode Lp p kp cp A) x kx cx B) g kg cg Rg)"
    using gn1 s1(3) by simp
  have 4: "distinct (caddrs_l C @ paddrs (PNode (PNode (PNode Lp p kp cp A) x kx cx B) g kg cg Rg)
      @ caddrs_r C)"
    using assms(3) by simp
  from splay_rotate_right_rep[OF gn1(5) 5 4] obtain s2 where
    s2: "splay_rotate_right (Some g) s1 = Some s2"
      "sctx (s_heap s2) (s_root s2) C (Some x) (sparent gn1)"
      "stree (s_heap s2) (Some x) (sparent gn1)
         (PNode (PNode Lp p kp cp A) x kx cx (PNode B g kg cg Rg))"
      "s_size s2 = s_size s1" "s_alloc s2 = s_alloc s1"
      "\<forall>a. a \<notin> set (caddrs_l C @ paddrs (PNode (PNode (PNode Lp p kp cp A) x kx cx B) g kg cg Rg)
          @ caddrs_r C) \<longrightarrow> s_heap s2 a = s_heap s1 a"
    by blast
  have "splay_step (Some x) s = Some s2" using ev s1(1) xp s2(1) by simp
  moreover have "\<forall>a. a \<notin> set (caddrs_l (FR Lp p kp cp # FL g kg cg Rg # C) @ paddrs (PNode A x kx cx B)
              @ caddrs_r (FR Lp p kp cp # FL g kg cg Rg # C)) \<longrightarrow> s_heap s2 a = s_heap s a"
    using s1(6) s2(6) by auto
  ultimately show ?thesis using s2(2,3,4,5) s1(4,5) by auto
qed

lemma splay_step_zigzag_lr:
  assumes "sctx (s_heap s) (s_root s) (FL p kp cp Rp # FR Lg g kg cg # C) (Some x) par"
    "stree (s_heap s) (Some x) par (PNode A x kx cx B)"
    "distinct (caddrs_l (FL p kp cp Rp # FR Lg g kg cg # C) @ paddrs (PNode A x kx cx B)
       @ caddrs_r (FL p kp cp Rp # FR Lg g kg cg # C))"
  shows "\<exists>s' par'. splay_step (Some x) s = Some s'
     \<and> sctx (s_heap s') (s_root s') C (Some x) par'
     \<and> stree (s_heap s') (Some x) par' (PNode (PNode Lg g kg cg A) x kx cx (PNode B p kp cp Rp))
     \<and> s_size s' = s_size s \<and> s_alloc s' = s_alloc s
     \<and> (\<forall>a. a \<notin> set (caddrs_l (FL p kp cp Rp # FR Lg g kg cg # C) @ paddrs (PNode A x kx cx B)
              @ caddrs_r (FL p kp cp Rp # FR Lg g kg cg # C))
            \<longrightarrow> s_heap s' a = s_heap s a)"
proof -
  from assms(1) obtain pn gn where par: "par = Some p" and
    pn: "s_heap s p = Some pn" "skey pn = kp" "sleft pn = Some x"
      "stree (s_heap s) (sright pn) (Some p) Rp" "sparent pn = Some g" and
    gn: "s_heap s g = Some gn" "skey gn = kg" "sright gn = Some p"
      "stree (s_heap s) (sleft gn) (Some g) Lg"
      "sctx (s_heap s) (s_root s) C (Some g) (sparent gn)"
    by auto
  from assms(2) obtain xn where xn: "s_heap s x = Some xn" "sparent xn = par" by auto
  note pRp = stree_ptr[OF pn(4)] and pLg = stree_ptr[OF gn(4)]
  have ev: "splay_step (Some x) s = do {
         s1 \<leftarrow> splay_rotate_right (Some p) s;
         xp \<leftarrow> s_parent s1 (Some x);
         splay_rotate_left xp s1 }"
    using pn gn xn par pRp pLg assms(3) by (simp add: splay_step_def s_prims py_and_def)
  have 1: "sctx (s_heap s) (s_root s) (FR Lg g kg cg # C) (Some p) (Some g)"
    using gn by simp
  have 2: "stree (s_heap s) (Some p) (Some g) (PNode (PNode A x kx cx B) p kp cp Rp)"
    using pn assms(2) par by simp
  have 3: "distinct (caddrs_l (FR Lg g kg cg # C) @ paddrs (PNode (PNode A x kx cx B) p kp cp Rp)
      @ caddrs_r (FR Lg g kg cg # C))"
    using assms(3) by simp
  from splay_rotate_right_rep[OF 1 2 3] obtain s1 where
    s1: "splay_rotate_right (Some p) s = Some s1"
      "sctx (s_heap s1) (s_root s1) (FR Lg g kg cg # C) (Some x) (Some g)"
      "stree (s_heap s1) (Some x) (Some g) (PNode A x kx cx (PNode B p kp cp Rp))"
      "s_size s1 = s_size s" "s_alloc s1 = s_alloc s"
      "\<forall>a. a \<notin> set (caddrs_l (FR Lg g kg cg # C) @ paddrs (PNode (PNode A x kx cx B) p kp cp Rp)
          @ caddrs_r (FR Lg g kg cg # C)) \<longrightarrow> s_heap s1 a = s_heap s a"
    by blast
  from s1(3) have xp: "s_parent s1 (Some x) = Some (Some g)" by (auto simp: s_prims)
  from s1(2) obtain gn1 where gn1: "s_heap s1 g = Some gn1" "skey gn1 = kg" "sright gn1 = Some x"
      "stree (s_heap s1) (sleft gn1) (Some g) Lg"
      "sctx (s_heap s1) (s_root s1) C (Some g) (sparent gn1)" by auto
  have 5: "stree (s_heap s1) (Some g) (sparent gn1)
      (PNode Lg g kg cg (PNode A x kx cx (PNode B p kp cp Rp)))"
    using gn1 s1(3) by simp
  have 4: "distinct (caddrs_l C @ paddrs (PNode Lg g kg cg (PNode A x kx cx (PNode B p kp cp Rp)))
      @ caddrs_r C)"
    using assms(3) by simp
  from splay_rotate_left_rep[OF gn1(5) 5 4] obtain s2 where
    s2: "splay_rotate_left (Some g) s1 = Some s2"
      "sctx (s_heap s2) (s_root s2) C (Some x) (sparent gn1)"
      "stree (s_heap s2) (Some x) (sparent gn1)
         (PNode (PNode Lg g kg cg A) x kx cx (PNode B p kp cp Rp))"
      "s_size s2 = s_size s1" "s_alloc s2 = s_alloc s1"
      "\<forall>a. a \<notin> set (caddrs_l C @ paddrs (PNode Lg g kg cg (PNode A x kx cx (PNode B p kp cp Rp)))
          @ caddrs_r C) \<longrightarrow> s_heap s2 a = s_heap s1 a"
    by blast
  have "splay_step (Some x) s = Some s2" using ev s1(1) xp s2(1) by simp
  moreover have "\<forall>a. a \<notin> set (caddrs_l (FL p kp cp Rp # FR Lg g kg cg # C) @ paddrs (PNode A x kx cx B)
              @ caddrs_r (FL p kp cp Rp # FR Lg g kg cg # C)) \<longrightarrow> s_heap s2 a = s_heap s a"
    using s1(6) s2(6) by auto
  ultimately show ?thesis using s2(2,3,4,5) s1(4,5) by auto
qed


lemma splay_unfold:
  assumes "s_heap s x = Some xn"
  shows "splay (Some x) s = (if sparent xn \<noteq> None
           then splay_step (Some x) s \<bind> splay (Some x) else Some s)"
  by (subst splay.simps) (simp add: s_prims assms)

lemma splay_zip:
  "sctx (s_heap s) (s_root s) C (Some x) par \<Longrightarrow> stree (s_heap s) (Some x) par U \<Longrightarrow>
   distinct (caddrs_l C @ paddrs U @ caddrs_r C) \<Longrightarrow>
   \<exists>s'. splay (Some x) s = Some s' \<and> s_root s' = Some x
     \<and> stree (s_heap s') (Some x) None (zsplay C U)
     \<and> s_size s' = s_size s \<and> s_alloc s' = s_alloc s
     \<and> (\<forall>a. a \<notin> set (caddrs_l C @ paddrs U @ caddrs_r C) \<longrightarrow> s_heap s' a = s_heap s a)"
proof (induction C U arbitrary: s par rule: zsplay.induct)
  case (1 t)
  from "1.prems"(2) obtain xn where xn: "s_heap s x = Some xn" "sparent xn = par"
    by (cases t) auto
  with "1.prems" show ?case by (simp add: splay_unfold[OF xn(1)])
next
  case (2 p kp cp R A x' kx cx B)
  from "2.prems"(2) have x': "x' = x" by simp
  from "2.prems"(1,2) obtain xn where xn: "s_heap s x = Some xn" "sparent xn = Some p" by auto
  from splay_step_zig_l[OF "2.prems"(1) "2.prems"(2)[unfolded x'] "2.prems"(3)[unfolded x']]
  obtain s1 where s1: "splay_step (Some x) s = Some s1"
    "sctx (s_heap s1) (s_root s1) [] (Some x) None"
    "stree (s_heap s1) (Some x) None (PNode A x kx cx (PNode B p kp cp R))"
    "s_size s1 = s_size s" "s_alloc s1 = s_alloc s"
    "\<forall>a. a \<notin> set (caddrs_l [FL p kp cp R] @ paddrs (PNode A x kx cx B) @ caddrs_r [FL p kp cp R])
            \<longrightarrow> s_heap s1 a = s_heap s a" by blast
  from s1(3) obtain xn1 where xn1: "s_heap s1 x = Some xn1" "sparent xn1 = None" by auto
  from s1 xn xn1 show ?case unfolding x'
    by (simp add: splay_unfold[OF xn(1)] splay_unfold[OF xn1(1)])
next
  case (3 L p kp cp A x' kx cx B)
  from "3.prems"(2) have x': "x' = x" by simp
  from "3.prems"(1,2) obtain xn where xn: "s_heap s x = Some xn" "sparent xn = Some p" by auto
  from splay_step_zig_r[OF "3.prems"(1) "3.prems"(2)[unfolded x'] "3.prems"(3)[unfolded x']]
  obtain s1 where s1: "splay_step (Some x) s = Some s1"
    "sctx (s_heap s1) (s_root s1) [] (Some x) None"
    "stree (s_heap s1) (Some x) None (PNode (PNode L p kp cp A) x kx cx B)"
    "s_size s1 = s_size s" "s_alloc s1 = s_alloc s"
    "\<forall>a. a \<notin> set (caddrs_l [FR L p kp cp] @ paddrs (PNode A x kx cx B) @ caddrs_r [FR L p kp cp])
            \<longrightarrow> s_heap s1 a = s_heap s a" by blast
  from s1(3) obtain xn1 where xn1: "s_heap s1 x = Some xn1" "sparent xn1 = None" by auto
  from s1 xn xn1 show ?case unfolding x'
    by (simp add: splay_unfold[OF xn(1)] splay_unfold[OF xn1(1)])
next
  case (4 p kp cp Rp g kg cg Rg C A x' kx cx B)
  from "4.prems"(2) have x': "x' = x" by simp
  from "4.prems"(1,2) obtain xn where xn: "s_heap s x = Some xn" "sparent xn = Some p" by auto
  from splay_step_zigzig_l[OF "4.prems"(1) "4.prems"(2)[unfolded x'] "4.prems"(3)[unfolded x']]
  obtain s1 par1 where s1: "splay_step (Some x) s = Some s1"
    "sctx (s_heap s1) (s_root s1) C (Some x) par1"
    "stree (s_heap s1) (Some x) par1 (PNode A x kx cx (PNode B p kp cp (PNode Rp g kg cg Rg)))"
    "s_size s1 = s_size s" "s_alloc s1 = s_alloc s"
    "\<forall>a. a \<notin> set (caddrs_l (FL p kp cp Rp # FL g kg cg Rg # C) @ paddrs (PNode A x kx cx B)
              @ caddrs_r (FL p kp cp Rp # FL g kg cg Rg # C))
            \<longrightarrow> s_heap s1 a = s_heap s a" by blast
  have d: "distinct (caddrs_l C @ paddrs (PNode A x kx cx (PNode B p kp cp (PNode Rp g kg cg Rg))) @ caddrs_r C)"
    using "4.prems"(3) x' by simp
  from "4.IH"[unfolded x', OF s1(2) s1(3) d] obtain s2 where
    s2: "splay (Some x) s1 = Some s2" "s_root s2 = Some x"
     "stree (s_heap s2) (Some x) None (zsplay C (PNode A x kx cx (PNode B p kp cp (PNode Rp g kg cg Rg))))"
     "s_size s2 = s_size s1" "s_alloc s2 = s_alloc s1"
     "\<forall>a. a \<notin> set (caddrs_l C @ paddrs (PNode A x kx cx (PNode B p kp cp (PNode Rp g kg cg Rg))) @ caddrs_r C)
        \<longrightarrow> s_heap s2 a = s_heap s1 a" by blast
  have "\<forall>a. a \<notin> set (caddrs_l (FL p kp cp Rp # FL g kg cg Rg # C) @ paddrs (PNode A x kx cx B)
              @ caddrs_r (FL p kp cp Rp # FL g kg cg Rg # C)) \<longrightarrow> s_heap s2 a = s_heap s a"
    using s1(6) s2(6) by auto
  with s1 s2 xn show ?case unfolding x'
    by (simp add: splay_unfold[OF xn(1)])
next
  case (5 Lp p kp cp Lg g kg cg C A x' kx cx B)
  from "5.prems"(2) have x': "x' = x" by simp
  from "5.prems"(1,2) obtain xn where xn: "s_heap s x = Some xn" "sparent xn = Some p" by auto
  from splay_step_zigzig_r[OF "5.prems"(1) "5.prems"(2)[unfolded x'] "5.prems"(3)[unfolded x']]
  obtain s1 par1 where s1: "splay_step (Some x) s = Some s1"
    "sctx (s_heap s1) (s_root s1) C (Some x) par1"
    "stree (s_heap s1) (Some x) par1 (PNode (PNode (PNode Lg g kg cg Lp) p kp cp A) x kx cx B)"
    "s_size s1 = s_size s" "s_alloc s1 = s_alloc s"
    "\<forall>a. a \<notin> set (caddrs_l (FR Lp p kp cp # FR Lg g kg cg # C) @ paddrs (PNode A x kx cx B)
              @ caddrs_r (FR Lp p kp cp # FR Lg g kg cg # C))
            \<longrightarrow> s_heap s1 a = s_heap s a" by blast
  have d: "distinct (caddrs_l C @ paddrs (PNode (PNode (PNode Lg g kg cg Lp) p kp cp A) x kx cx B) @ caddrs_r C)"
    using "5.prems"(3) x' by simp
  from "5.IH"[unfolded x', OF s1(2) s1(3) d] obtain s2 where
    s2: "splay (Some x) s1 = Some s2" "s_root s2 = Some x"
     "stree (s_heap s2) (Some x) None (zsplay C (PNode (PNode (PNode Lg g kg cg Lp) p kp cp A) x kx cx B))"
     "s_size s2 = s_size s1" "s_alloc s2 = s_alloc s1"
     "\<forall>a. a \<notin> set (caddrs_l C @ paddrs (PNode (PNode (PNode Lg g kg cg Lp) p kp cp A) x kx cx B) @ caddrs_r C)
        \<longrightarrow> s_heap s2 a = s_heap s1 a" by blast
  have "\<forall>a. a \<notin> set (caddrs_l (FR Lp p kp cp # FR Lg g kg cg # C) @ paddrs (PNode A x kx cx B)
              @ caddrs_r (FR Lp p kp cp # FR Lg g kg cg # C)) \<longrightarrow> s_heap s2 a = s_heap s a"
    using s1(6) s2(6) by auto
  with s1 s2 xn show ?case unfolding x'
    by (simp add: splay_unfold[OF xn(1)])
next
  case (6 Lp p kp cp g kg cg Rg C A x' kx cx B)
  from "6.prems"(2) have x': "x' = x" by simp
  from "6.prems"(1,2) obtain xn where xn: "s_heap s x = Some xn" "sparent xn = Some p" by auto
  from splay_step_zigzag_rl[OF "6.prems"(1) "6.prems"(2)[unfolded x'] "6.prems"(3)[unfolded x']]
  obtain s1 par1 where s1: "splay_step (Some x) s = Some s1"
    "sctx (s_heap s1) (s_root s1) C (Some x) par1"
    "stree (s_heap s1) (Some x) par1 (PNode (PNode Lp p kp cp A) x kx cx (PNode B g kg cg Rg))"
    "s_size s1 = s_size s" "s_alloc s1 = s_alloc s"
    "\<forall>a. a \<notin> set (caddrs_l (FR Lp p kp cp # FL g kg cg Rg # C) @ paddrs (PNode A x kx cx B)
              @ caddrs_r (FR Lp p kp cp # FL g kg cg Rg # C))
            \<longrightarrow> s_heap s1 a = s_heap s a" by blast
  have d: "distinct (caddrs_l C @ paddrs (PNode (PNode Lp p kp cp A) x kx cx (PNode B g kg cg Rg)) @ caddrs_r C)"
    using "6.prems"(3) x' by simp
  from "6.IH"[unfolded x', OF s1(2) s1(3) d] obtain s2 where
    s2: "splay (Some x) s1 = Some s2" "s_root s2 = Some x"
     "stree (s_heap s2) (Some x) None (zsplay C (PNode (PNode Lp p kp cp A) x kx cx (PNode B g kg cg Rg)))"
     "s_size s2 = s_size s1" "s_alloc s2 = s_alloc s1"
     "\<forall>a. a \<notin> set (caddrs_l C @ paddrs (PNode (PNode Lp p kp cp A) x kx cx (PNode B g kg cg Rg)) @ caddrs_r C)
        \<longrightarrow> s_heap s2 a = s_heap s1 a" by blast
  have "\<forall>a. a \<notin> set (caddrs_l (FR Lp p kp cp # FL g kg cg Rg # C) @ paddrs (PNode A x kx cx B)
              @ caddrs_r (FR Lp p kp cp # FL g kg cg Rg # C)) \<longrightarrow> s_heap s2 a = s_heap s a"
    using s1(6) s2(6) by auto
  with s1 s2 xn show ?case unfolding x'
    by (simp add: splay_unfold[OF xn(1)])
next
  case (7 p kp cp Rp Lg g kg cg C A x' kx cx B)
  from "7.prems"(2) have x': "x' = x" by simp
  from "7.prems"(1,2) obtain xn where xn: "s_heap s x = Some xn" "sparent xn = Some p" by auto
  from splay_step_zigzag_lr[OF "7.prems"(1) "7.prems"(2)[unfolded x'] "7.prems"(3)[unfolded x']]
  obtain s1 par1 where s1: "splay_step (Some x) s = Some s1"
    "sctx (s_heap s1) (s_root s1) C (Some x) par1"
    "stree (s_heap s1) (Some x) par1 (PNode (PNode Lg g kg cg A) x kx cx (PNode B p kp cp Rp))"
    "s_size s1 = s_size s" "s_alloc s1 = s_alloc s"
    "\<forall>a. a \<notin> set (caddrs_l (FL p kp cp Rp # FR Lg g kg cg # C) @ paddrs (PNode A x kx cx B)
              @ caddrs_r (FL p kp cp Rp # FR Lg g kg cg # C))
            \<longrightarrow> s_heap s1 a = s_heap s a" by blast
  have d: "distinct (caddrs_l C @ paddrs (PNode (PNode Lg g kg cg A) x kx cx (PNode B p kp cp Rp)) @ caddrs_r C)"
    using "7.prems"(3) x' by simp
  from "7.IH"[unfolded x', OF s1(2) s1(3) d] obtain s2 where
    s2: "splay (Some x) s1 = Some s2" "s_root s2 = Some x"
     "stree (s_heap s2) (Some x) None (zsplay C (PNode (PNode Lg g kg cg A) x kx cx (PNode B p kp cp Rp)))"
     "s_size s2 = s_size s1" "s_alloc s2 = s_alloc s1"
     "\<forall>a. a \<notin> set (caddrs_l C @ paddrs (PNode (PNode Lg g kg cg A) x kx cx (PNode B p kp cp Rp)) @ caddrs_r C)
        \<longrightarrow> s_heap s2 a = s_heap s1 a" by blast
  have "\<forall>a. a \<notin> set (caddrs_l (FL p kp cp Rp # FR Lg g kg cg # C) @ paddrs (PNode A x kx cx B)
              @ caddrs_r (FL p kp cp Rp # FR Lg g kg cg # C)) \<longrightarrow> s_heap s2 a = s_heap s a"
    using s1(6) s2(6) by auto
  with s1 s2 xn show ?case unfolding x'
    by (simp add: splay_unfold[OF xn(1)])
next
  case (8 f C)
  then show ?case by simp
qed

lemma zfind_plug: "zfind key C U = (C', U') \<Longrightarrow> plug C' U' = plug C U"
  by (induction U arbitrary: C) (auto split: if_splits)

lemma zfind_nonleaf: "U \<noteq> PLeaf \<Longrightarrow> snd (zfind key C U) \<noteq> PLeaf"
  by (induction U arbitrary: C) auto

lemma zfind_addrs:
  "zfind key C U = (C', U') \<Longrightarrow>
   caddrs_l C' @ paddrs U' @ caddrs_r C' = caddrs_l C @ paddrs U @ caddrs_r C"
  by (induction U arbitrary: C) (auto split: if_splits)

lemma splay_search_loop_unfold:
  assumes "s_heap s a = Some n"
  shows "splay_search_loop key (Some a) s =
     (if key = skey n then splay (Some a) s \<bind> (\<lambda>s. Some (True, s))
      else if key < skey n then
        (if sleft n = None then splay (Some a) s \<bind> (\<lambda>s. Some (False, s))
         else splay_search_loop key (sleft n) s)
      else
        (if sright n = None then splay (Some a) s \<bind> (\<lambda>s. Some (False, s))
         else splay_search_loop key (sright n) s))"
  by (subst splay_search_loop.simps) (simp add: s_prims assms)

lemma pptr_None [simp]: "pptr t = None \<longleftrightarrow> t = PLeaf"
  by (cases t) auto

lemma splay_search_loop_zip:
  "sctx (s_heap s) (s_root s) C (pptr U) par \<Longrightarrow> stree (s_heap s) (pptr U) par U \<Longrightarrow>
   U \<noteq> PLeaf \<Longrightarrow> distinct (caddrs_l C @ paddrs U @ caddrs_r C) \<Longrightarrow>
   \<exists>s'. splay_search_loop key (pptr U) s = Some (pkey (snd (zfind key C U)) = Some key, s')
     \<and> s_root s' = pptr (snd (zfind key C U))
     \<and> stree (s_heap s') (s_root s') None (zsplay (fst (zfind key C U)) (snd (zfind key C U)))
     \<and> s_size s' = s_size s \<and> s_alloc s' = s_alloc s
     \<and> (\<forall>a. a \<notin> set (caddrs_l C @ paddrs U @ caddrs_r C) \<longrightarrow> s_heap s' a = s_heap s a)"
proof (induction U arbitrary: C par)
  case PLeaf
  then show ?case by simp
next
  case (PNode l a k c r)
  from PNode.prems(2) obtain n where n: "s_heap s a = Some n" "skey n = k" "sparent n = par"
    "stree (s_heap s) (sleft n) (Some a) l" "stree (s_heap s) (sright n) (Some a) r" by auto
  note pl = stree_ptr[OF n(4)] and pr = stree_ptr[OF n(5)]
  have here: "\<exists>s'. splay (Some a) s = Some s' \<and> s_root s' = Some a
     \<and> stree (s_heap s') (Some a) None (zsplay C (PNode l a k c r))
     \<and> s_size s' = s_size s \<and> s_alloc s' = s_alloc s
     \<and> (\<forall>x. x \<notin> set (caddrs_l C @ paddrs (PNode l a k c r) @ caddrs_r C) \<longrightarrow> s_heap s' x = s_heap s x)"
    using splay_zip[OF PNode.prems(1)[unfolded pptr.simps] PNode.prems(2)[unfolded pptr.simps] PNode.prems(4)] by simp
  consider "key = k" | "key < k" "l = PLeaf" | "key < k" "l \<noteq> PLeaf"
    | "key > k" "r = PLeaf" | "key > k" "r \<noteq> PLeaf" by fastforce
  then show ?case
  proof cases
    case 1
    with here n show ?thesis by (auto simp: splay_search_loop_unfold[OF n(1)])
  next
    case 2
    with here n pl show ?thesis by (auto simp: splay_search_loop_unfold[OF n(1)])
  next
    case 3
    have 1: "sctx (s_heap s) (s_root s) (FL a k c r # C) (pptr l) (Some a)"
      using PNode.prems(1) n pl by simp
    have 2: "stree (s_heap s) (pptr l) (Some a) l" using n(4) pl by simp
    have 4: "distinct (caddrs_l (FL a k c r # C) @ paddrs l @ caddrs_r (FL a k c r # C))"
      using PNode.prems(4) by simp
    from PNode.IH(1)[OF 1 2 3(2) 4] 3 n pl show ?thesis
      by (auto simp: splay_search_loop_unfold[OF n(1)])
  next
    case 4
    with here n pr show ?thesis by (auto simp: splay_search_loop_unfold[OF n(1)])
  next
    case 5
    have 1: "sctx (s_heap s) (s_root s) (FR l a k c # C) (pptr r) (Some a)"
      using PNode.prems(1) n pr by simp
    have 2: "stree (s_heap s) (pptr r) (Some a) r" using n(5) pr by simp
    have 4: "distinct (caddrs_l (FR l a k c # C) @ paddrs r @ caddrs_r (FR l a k c # C))"
      using PNode.prems(4) by simp
    from PNode.IH(2)[OF 1 2 5(2) 4] 5 n pr show ?thesis
      by (auto simp: splay_search_loop_unfold[OF n(1)])
  qed
qed

lemma search_path_Nil [simp]: "search_path key t = [] \<longleftrightarrow> t = PLeaf"
  by (cases t) auto

lemma zfind_last_visited:
  "U \<noteq> PLeaf \<Longrightarrow> pptr (snd (zfind key C U)) = Some (last (search_path key U))"
  by (induction U arbitrary: C) auto

lemma zfind_found:
  "sorted_wrt (<) (pkeys U) \<Longrightarrow> pkey (snd (zfind key C U)) = Some key \<longleftrightarrow> key \<in> set (pkeys U)"
  by (induction U arbitrary: C) (auto simp: sorted_mid)

lemma zsplay_zfind_keys:
  "t \<noteq> PLeaf \<Longrightarrow> pkeys (zsplay (fst (zfind key [] t)) (snd (zfind key [] t))) = pkeys t"
  using zfind_plug[of key "[]" t] zfind_nonleaf[of t key "[]"]
  by (cases "zfind key [] t") (simp add: pkeys_zsplay)

lemma zsplay_zfind_addrs:
  "t \<noteq> PLeaf \<Longrightarrow> paddrs (zsplay (fst (zfind key [] t)) (snd (zfind key [] t))) = paddrs t"
  using zfind_plug[of key "[]" t] zfind_nonleaf[of t key "[]"]
  by (cases "zfind key [] t") (simp add: paddrs_zsplay)

lemma zsplay_pkey: "t \<noteq> PLeaf \<Longrightarrow> pkey (zsplay C t) = pkey t"
  by (induction C t rule: zsplay.induct) auto

lemma splay_search_rep:
  assumes "splay_rep s t"
  shows "\<exists>s'. splay_search key s = Some (pkey (splay_found key t) = Some key, s')
     \<and> splay_rep s' (splay_found key t)
     \<and> s_size s' = s_size s \<and> s_alloc s' = s_alloc s
     \<and> (\<forall>a. a \<notin> set (paddrs t) \<longrightarrow> s_heap s' a = s_heap s a)"
proof (cases "t = PLeaf")
  case True
  with assms show ?thesis
    by (simp add: splay_rep_def splay_search_def splay_found_def splay_search_loop.simps)
next
  case False
  from assms have st: "stree (s_heap s) (s_root s) None t" and d: "distinct (paddrs t)"
    and al: "\<forall>a\<in>set (paddrs t). a < s_alloc s" by (simp_all add: splay_rep_def)
  note p = stree_ptr[OF st]
  have 1: "sctx (s_heap s) (s_root s) [] (pptr t) None" using p by simp
  have 2: "stree (s_heap s) (pptr t) None t" using st p by simp
  have 4: "distinct (caddrs_l [] @ paddrs t @ caddrs_r [])" using d by simp
  from splay_search_loop_zip[OF 1 2 False 4, of key] obtain s' where
    s': "splay_search_loop key (pptr t) s = Some (pkey (snd (zfind key [] t)) = Some key, s')"
     "s_root s' = pptr (snd (zfind key [] t))"
     "stree (s_heap s') (s_root s') None (zsplay (fst (zfind key [] t)) (snd (zfind key [] t)))"
     "s_size s' = s_size s" "s_alloc s' = s_alloc s"
     "\<forall>a. a \<notin> set (paddrs t) \<longrightarrow> s_heap s' a = s_heap s a" by auto
  from s' False p d al show ?thesis
    by (simp add: splay_rep_def splay_search_def splay_found_def zsplay_zfind_addrs
          zsplay_pkey zfind_nonleaf)
qed

lemma splay_found_keys [simp]: "pkeys (splay_found key t) = pkeys t"
  by (simp add: splay_found_def zsplay_zfind_keys)

lemma splay_found_addrs [simp]: "paddrs (splay_found key t) = paddrs t"
  by (simp add: splay_found_def zsplay_zfind_addrs)

lemma splay_found_Leaf [simp]: "splay_found key t = PLeaf \<longleftrightarrow> t = PLeaf"
  using splay_found_addrs[of key t] by (metis paddrs.simps(1) pptr_None pptr_in empty_iff list.set(1) option.exhaust)

lemma splay_found_pkey:
  "sorted_wrt (<) (pkeys t) \<Longrightarrow> pkey (splay_found key t) = Some key \<longleftrightarrow> key \<in> set (pkeys t)"
  by (simp add: splay_found_def zsplay_pkey zfind_nonleaf zfind_found)

lemma splay_found_root:
  "t \<noteq> PLeaf \<Longrightarrow> pptr (splay_found key t) = Some (last (search_path key t))"
  by (simp add: splay_found_def pptr_zsplay zfind_nonleaf zfind_last_visited)

lemma splay_insert_loop_unfold:
  assumes "s_heap s a = Some n"
  shows "splay_insert_loop key node (Some a) parent s =
     (if key < skey n then splay_insert_loop key node (sleft n) (Some a) s
      else if key > skey n then splay_insert_loop key node (sright n) (Some a) s
      else splay (Some a) s)"
  by (subst splay_insert_loop.simps) (simp add: s_prims assms)

lemma splay_insert_loop_attach:
  "splay_insert_loop key node None parent s = do {
        s \<leftarrow> s_set_parent node parent s;
        pk \<leftarrow> s_key s parent;
        s \<leftarrow> (if key < pk then s_set_left parent node s else s_set_right parent node s);
        splay node (s\<lparr>s_size := s_size s + 1\<rparr>)
      }"
  by (subst splay_insert_loop.simps) simp

lemma splay_attach_zip:
  assumes "sctx (s_heap s) (s_root s) C None par" "C \<noteq> []" "dir_ok key C"
    "distinct (caddrs_l C @ caddrs_r C)"
    "s_heap s n = Some \<lparr>skey = key, sleft = None, sright = None, sparent = None\<rparr>"
    "n \<notin> set (caddrs_l C @ caddrs_r C)"
  shows "\<exists>s'. splay_insert_loop key (Some n) None par s = Some s' \<and> s_root s' = Some n
     \<and> stree (s_heap s') (s_root s') None (zsplay C (PNode PLeaf n key () PLeaf))
     \<and> s_size s' = s_size s + 1 \<and> s_alloc s' = s_alloc s
     \<and> (\<forall>a. a \<notin> set (caddrs_l C @ caddrs_r C) \<and> a \<noteq> n \<longrightarrow> s_heap s' a = s_heap s a)"
proof -
  define s1 where "s1 = s\<lparr>s_heap := (s_heap s)(n \<mapsto> \<lparr>skey = key, sleft = None, sright = None, sparent = par\<rparr>)\<rparr>"
  show ?thesis
  proof (cases C rule: caddrs_l.cases)
    case 1
    with assms(2) show ?thesis by simp
  next
    case (2 pa kp cp Rp C')
    with assms(1) obtain pn where par: "par = Some pa" and
      pn: "s_heap s pa = Some pn" "skey pn = kp" "sleft pn = None"
        "stree (s_heap s) (sright pn) (Some pa) Rp" "sctx (s_heap s) (s_root s) C' (Some pa) (sparent pn)"
      by auto
    define s2 where "s2 = s\<lparr>s_heap := (s_heap s)(n \<mapsto> \<lparr>skey = key, sleft = None, sright = None, sparent = par\<rparr>,
         pa \<mapsto> pn\<lparr>sleft := Some n\<rparr>), s_size := s_size s + 1\<rparr>"
    have ev: "splay_insert_loop key (Some n) None par s = splay (Some n) s2"
      using assms(3,5,6) 2 par pn
      by (simp add: splay_insert_loop_attach s_prims s2_def)
    have a: "sctx (s_heap s2) (s_root s2) C (Some n) par"
      using assms(4,6) 2 par pn by (simp add: s2_def)
    have b: "stree (s_heap s2) (Some n) par (PNode PLeaf n key () PLeaf)"
      using assms(6) 2 par by (auto simp add: s2_def)
    have c: "distinct (caddrs_l C @ paddrs (PNode PLeaf n key () PLeaf) @ caddrs_r C)"
      using assms(4,6) by auto
    from splay_zip[OF a b c] ev show ?thesis
      by (auto simp: s2_def 2)
  next
    case (3 Lp pa kp cp C')
    with assms(1) obtain pn where par: "par = Some pa" and
      pn: "s_heap s pa = Some pn" "skey pn = kp" "sright pn = None"
        "stree (s_heap s) (sleft pn) (Some pa) Lp" "sctx (s_heap s) (s_root s) C' (Some pa) (sparent pn)"
      by auto
    define s2 where "s2 = s\<lparr>s_heap := (s_heap s)(n \<mapsto> \<lparr>skey = key, sleft = None, sright = None, sparent = par\<rparr>,
         pa \<mapsto> pn\<lparr>sright := Some n\<rparr>), s_size := s_size s + 1\<rparr>"
    have ev: "splay_insert_loop key (Some n) None par s = splay (Some n) s2"
      using assms(3,5,6) 3 par pn
      by (simp add: splay_insert_loop_attach s_prims s2_def)
    have a: "sctx (s_heap s2) (s_root s2) C (Some n) par"
      using assms(4,6) 3 par pn by (simp add: s2_def)
    have b: "stree (s_heap s2) (Some n) par (PNode PLeaf n key () PLeaf)"
      using assms(6) 3 par by (auto simp add: s2_def)
    have c: "distinct (caddrs_l C @ paddrs (PNode PLeaf n key () PLeaf) @ caddrs_r C)"
      using assms(4,6) by auto
    from splay_zip[OF a b c] ev show ?thesis
      by (auto simp: s2_def 3)
  qed
qed

lemma splay_insert_loop_zip:
  "sctx (s_heap s) (s_root s) C (pptr U) par \<Longrightarrow> stree (s_heap s) (pptr U) par U \<Longrightarrow>
   C \<noteq> [] \<or> U \<noteq> PLeaf \<Longrightarrow> dir_ok key C \<Longrightarrow>
   distinct (caddrs_l C @ paddrs U @ caddrs_r C) \<Longrightarrow>
   s_heap s n = Some \<lparr>skey = key, sleft = None, sright = None, sparent = None\<rparr> \<Longrightarrow>
   n \<notin> set (caddrs_l C @ paddrs U @ caddrs_r C) \<Longrightarrow>
   \<exists>s'. splay_insert_loop key (Some n) (pptr U) par s = Some s'
     \<and> stree (s_heap s') (s_root s') None (zins_result key n C U)
     \<and> s_size s' = s_size s + (if snd (zins key C U) = PLeaf then 1 else 0)
     \<and> s_alloc s' = s_alloc s
     \<and> (\<forall>a. a \<notin> set (caddrs_l C @ paddrs U @ caddrs_r C) \<and> a \<noteq> n \<longrightarrow> s_heap s' a = s_heap s a)"
proof (induction U arbitrary: C par)
  case PLeaf
  from splay_attach_zip[where s=s and C=C and par=par and key=key and n=n] PLeaf.prems show ?case
    by (auto simp: zins_result_def)
next
  case (PNode l a k c r)
  from PNode.prems(2) obtain nd where nd: "s_heap s a = Some nd" "skey nd = k" "sparent nd = par"
    "stree (s_heap s) (sleft nd) (Some a) l" "stree (s_heap s) (sright nd) (Some a) r" by auto
  note pl = stree_ptr[OF nd(4)] and pr = stree_ptr[OF nd(5)]
  consider "key < k" | "key > k" | "key = k" by fastforce
  then show ?case
  proof cases
    case 1
    have a: "sctx (s_heap s) (s_root s) (FL a k c r # C) (pptr l) (Some a)"
      using PNode.prems(1) nd pl by simp
    have b: "stree (s_heap s) (pptr l) (Some a) l" using nd(4) pl by simp
    have d: "distinct (caddrs_l (FL a k c r # C) @ paddrs l @ caddrs_r (FL a k c r # C))"
      using PNode.prems(5) by simp
    have e: "n \<notin> set (caddrs_l (FL a k c r # C) @ paddrs l @ caddrs_r (FL a k c r # C))"
      using PNode.prems(7) by simp
    from PNode.IH(1)[OF a b _ _ d PNode.prems(6) e] 1 nd pl show ?thesis
      by (auto simp: splay_insert_loop_unfold[OF nd(1)] zins_result_def)
  next
    case 2
    have a: "sctx (s_heap s) (s_root s) (FR l a k c # C) (pptr r) (Some a)"
      using PNode.prems(1) nd pr by simp
    have b: "stree (s_heap s) (pptr r) (Some a) r" using nd(5) pr by simp
    have d: "distinct (caddrs_l (FR l a k c # C) @ paddrs r @ caddrs_r (FR l a k c # C))"
      using PNode.prems(5) by simp
    have e: "n \<notin> set (caddrs_l (FR l a k c # C) @ paddrs r @ caddrs_r (FR l a k c # C))"
      using PNode.prems(7) by simp
    from PNode.IH(2)[OF a b _ _ d PNode.prems(6) e] 2 nd pr show ?thesis
      by (auto simp: splay_insert_loop_unfold[OF nd(1)] zins_result_def)
  next
    case 3
    from splay_zip[OF PNode.prems(1)[unfolded pptr.simps] PNode.prems(2)[unfolded pptr.simps] PNode.prems(5)]
      3 nd show ?thesis
      by (auto simp: splay_insert_loop_unfold[OF nd(1)] zins_result_def)
  qed
qed

lemma zins_plug: "zins key C U = (C', U') \<Longrightarrow> plug C' U' = plug C U"
  by (induction U arbitrary: C) (auto split: if_splits)

lemma zins_result_paddrs:
  assumes "zins key C U = (C', U')"
  shows "paddrs (plug C U) = caddrs_l C' @ paddrs U' @ caddrs_r C'"
    and "paddrs (zins_result key n C U) =
      (if U' = PLeaf then caddrs_l C' @ n # caddrs_r C' else caddrs_l C' @ paddrs U' @ caddrs_r C')"
proof -
  from zins_plug[OF assms] show "paddrs (plug C U) = caddrs_l C' @ paddrs U' @ caddrs_r C'"
    by (simp add: paddrs_plug[symmetric])
  show "paddrs (zins_result key n C U) =
      (if U' = PLeaf then caddrs_l C' @ n # caddrs_r C' else caddrs_l C' @ paddrs U' @ caddrs_r C')"
    using assms by (cases U') (simp_all add: zins_result_def paddrs_zsplay paddrs_plug)
qed

lemma zins_result_addrs:
  "set (paddrs (zins_result key n C U)) =
     set (paddrs (plug C U)) \<union> (if snd (zins key C U) = PLeaf then {n} else {})"
proof (cases "zins key C U")
  case (Pair C' U')
  show ?thesis unfolding zins_result_paddrs[OF Pair] using Pair by auto
qed

lemma zins_result_distinct:
  assumes "distinct (paddrs (plug C U))" "n \<notin> set (paddrs (plug C U))"
  shows "distinct (paddrs (zins_result key n C U))"
proof (cases "zins key C U")
  case (Pair C' U')
  show ?thesis using assms unfolding zins_result_paddrs[OF Pair] by auto
qed

lemma zins_bounds:
  "zins key C U = (C', U') \<Longrightarrow> sorted_wrt (<) (ckeys_l C @ pkeys U @ ckeys_r C) \<Longrightarrow>
   (\<forall>x\<in>set (ckeys_l C). x < key) \<Longrightarrow> (\<forall>x\<in>set (ckeys_r C). key < x) \<Longrightarrow>
   (\<forall>x\<in>set (ckeys_l C'). x < key) \<and> (\<forall>x\<in>set (ckeys_r C'). key < x)
   \<and> (U' = PLeaf \<longrightarrow> key \<notin> set (pkeys U))
   \<and> (U' \<noteq> PLeaf \<longrightarrow> key \<in> set (pkeys U))"
proof (induction U arbitrary: C)
  case PLeaf
  then show ?case by auto
next
  case (PNode l a k c r)
  from PNode.prems(2) have srt: "sorted_wrt (<) (pkeys l @ k # pkeys r)"
    by (simp add: sorted_wrt_append)
  then have lk: "\<forall>x\<in>set (pkeys l). x < k" and kr: "\<forall>x\<in>set (pkeys r). k < x"
    by (simp_all add: sorted_mid)
  consider "key < k" | "key > k" | "key = k" by fastforce
  then show ?case
  proof cases
    case 1
    with PNode.prems(1) have z: "zins key (FL a k c r # C) l = (C', U')" by simp
    have s: "sorted_wrt (<) (ckeys_l (FL a k c r # C) @ pkeys l @ ckeys_r (FL a k c r # C))"
      using PNode.prems(2) by simp
    have b1: "\<forall>x\<in>set (ckeys_l (FL a k c r # C)). x < key" using PNode.prems(3) by simp
    have b2: "\<forall>x\<in>set (ckeys_r (FL a k c r # C)). key < x"
      using PNode.prems(4) 1 kr by auto
    from PNode.IH(1)[OF z s b1 b2] 1 kr show ?thesis by auto
  next
    case 2
    with PNode.prems(1) have z: "zins key (FR l a k c # C) r = (C', U')" by simp
    have s: "sorted_wrt (<) (ckeys_l (FR l a k c # C) @ pkeys r @ ckeys_r (FR l a k c # C))"
      using PNode.prems(2) by simp
    have b1: "\<forall>x\<in>set (ckeys_l (FR l a k c # C)). x < key"
      using PNode.prems(3) 2 lk by auto
    have b2: "\<forall>x\<in>set (ckeys_r (FR l a k c # C)). key < x" using PNode.prems(4) by simp
    from PNode.IH(2)[OF z s b1 b2] 2 lk show ?thesis by auto
  next
    case 3
    with PNode.prems show ?thesis by auto
  qed
qed

lemma zins_result_keys:
  assumes "sorted_wrt (<) (pkeys t)"
  shows "sorted_wrt (<) (pkeys (zins_result key n [] t))
     \<and> set (pkeys (zins_result key n [] t)) = insert key (set (pkeys t))
     \<and> (snd (zins key [] t) = PLeaf \<longleftrightarrow> key \<notin> set (pkeys t))"
proof (cases "zins key [] t")
  case (Pair C' U')
  from zins_plug[OF Pair] have k: "pkeys t = ckeys_l C' @ pkeys U' @ ckeys_r C'"
    by (simp add: pkeys_plug[symmetric])
  from zins_bounds[OF Pair] assms have b: "\<forall>x\<in>set (ckeys_l C'). x < key"
    "\<forall>x\<in>set (ckeys_r C'). key < x" "U' = PLeaf \<longrightarrow> key \<notin> set (pkeys t)"
    "U' \<noteq> PLeaf \<longrightarrow> key \<in> set (pkeys t)" by simp_all
  show ?thesis
  proof (cases U')
    case PLeaf
    with Pair k b assms show ?thesis
      by (auto simp: zins_result_def pkeys_zsplay pkeys_plug sorted_mid sorted_wrt_append)
  next
    case (PNode l a k' c r)
    with Pair k b assms show ?thesis
      by (auto simp: zins_result_def pkeys_zsplay pkeys_plug)
  qed
qed

lemma splay_ins_keys:
  assumes "sorted_wrt (<) (pkeys t)"
  shows "sorted_wrt (<) (pkeys (splay_ins key n t))
     \<and> set (pkeys (splay_ins key n t)) = insert key (set (pkeys t))"
  using zins_result_keys[OF assms, of key n] by (auto simp: splay_ins_def)

lemma splay_ins_length:
  assumes "sorted_wrt (<) (pkeys t)"
  shows "int (length (pkeys (splay_ins key n t))) =
     int (length (pkeys t)) + (if key \<in> set (pkeys t) then 0 else 1)"
proof (cases "zins key [] t")
  case (Pair C' U')
  from zins_plug[OF Pair] have k: "pkeys t = ckeys_l C' @ pkeys U' @ ckeys_r C'"
    by (simp add: pkeys_plug[symmetric])
  from zins_result_keys[OF assms, of key n] Pair have
    e: "U' = PLeaf \<longleftrightarrow> key \<notin> set (pkeys t)" by simp
  show ?thesis
  proof (cases U')
    case PLeaf
    with Pair k e show ?thesis
      by (auto simp: splay_ins_def zins_result_def pkeys_zsplay pkeys_plug)
  next
    case (PNode l a k' c r)
    with Pair k e show ?thesis
      by (auto simp: splay_ins_def zins_result_def pkeys_zsplay pkeys_plug)
  qed
qed

lemma splay_insert_rep:
  assumes "splay_rep s t"
  shows "\<exists>s'. splay_insert key s = Some s' \<and> splay_rep s' (splay_ins key (s_alloc s) t)
     \<and> s_size s' = s_size s + (if t = PLeaf \<or> snd (zins key [] t) = PLeaf then 1 else 0)
     \<and> s_alloc s' = Suc (s_alloc s)"
proof -
  from assms have st: "stree (s_heap s) (s_root s) None t" and d: "distinct (paddrs t)"
    and al: "\<forall>a\<in>set (paddrs t). a < s_alloc s" by (simp_all add: splay_rep_def)
  note p = stree_ptr[OF st]
  let ?n = "s_alloc s"
  let ?s1 = "snd (s_new key s)"
  have fresh: "?n \<notin> set (paddrs t)" using al by auto
  show ?thesis
  proof (cases "t = PLeaf")
    case True
    with st p show ?thesis
      by (simp add: splay_insert_def s_new_def splay_rep_def splay_ins_def)
  next
    case False
    with p have rn: "s_root s \<noteq> None" by simp
    have step: "splay_insert key s = splay_insert_loop key (Some ?n) (pptr t) None ?s1"
      using rn p by (simp add: splay_insert_def s_new_def)
    have 1: "sctx (s_heap ?s1) (s_root ?s1) [] (pptr t) None" using p by (simp add: s_new_def)
    have 2: "stree (s_heap ?s1) (pptr t) None t" using st p fresh by (simp add: s_new_def)
    have 5: "distinct (caddrs_l [] @ paddrs t @ caddrs_r [])" using d by simp
    have 6: "s_heap ?s1 ?n = Some \<lparr>skey = key, sleft = None, sright = None, sparent = None\<rparr>"
      by (simp add: s_new_def)
    have 7: "?n \<notin> set (caddrs_l [] @ paddrs t @ caddrs_r [])" using fresh by simp
    from splay_insert_loop_zip[OF 1 2 _ _ 5 6 7] False obtain s' where
      s': "splay_insert_loop key (Some ?n) (pptr t) None ?s1 = Some s'"
      "stree (s_heap s') (s_root s') None (zins_result key ?n [] t)"
      "s_size s' = s_size ?s1 + (if snd (zins key [] t) = PLeaf then 1 else 0)"
      "s_alloc s' = s_alloc ?s1" by auto
    have dd: "distinct (paddrs (zins_result key ?n [] t))"
      using zins_result_distinct[where C="[]" and U=t and n="?n"] d fresh by simp
    have aa: "\<forall>a\<in>set (paddrs (zins_result key ?n [] t)). a < Suc ?n"
      using zins_result_addrs[where C="[]" and U=t and n="?n" and key=key] al by (auto split: if_splits simp: less_Suc_eq)
    from s' step dd aa False show ?thesis
      by (simp add: splay_rep_def splay_ins_def s_new_def)
  qed
qed

lemma zmax_plug: "zmax C U = (C', U') \<Longrightarrow> plug C' U' = plug C U"
  by (induction U arbitrary: C) (auto split: if_splits)

lemma zmax_FR: "list_all is_FR C \<Longrightarrow> list_all is_FR (fst (zmax C U))"
  by (induction U arbitrary: C) auto

lemma zmax_shape: "U \<noteq> PLeaf \<Longrightarrow> \<exists>l a k c. snd (zmax C U) = PNode l a k c PLeaf"
  by (induction U arbitrary: C) auto

lemma zsplay_right_spine:
  "list_all is_FR C \<Longrightarrow> t = PNode A x kx cx B \<Longrightarrow> \<exists>L'. zsplay C t = PNode L' x kx cx B"
  by (induction C t arbitrary: A rule: zsplay.induct) auto

lemma subtree_maximum_unfold:
  assumes "s_heap s a = Some n"
  shows "subtree_maximum (Some a) s =
     (if sright n \<noteq> None then subtree_maximum (sright n) s else Some (Some a))"
  by (subst subtree_maximum.simps) (simp add: s_prims assms)

lemma subtree_maximum_zip:
  "stree (s_heap s) (pptr U) par U \<Longrightarrow> U \<noteq> PLeaf \<Longrightarrow>
   subtree_maximum (pptr U) s = Some (pptr (snd (zmax C U)))"
proof (induction U arbitrary: C par)
  case PLeaf
  then show ?case by simp
next
  case (PNode l a k c r)
  from PNode.prems(1) obtain n where n: "s_heap s a = Some n"
    "stree (s_heap s) (sright n) (Some a) r" by auto
  note pr = stree_ptr[OF n(2)]
  show ?case
  proof (cases "r = PLeaf")
    case True
    with n pr show ?thesis by (simp add: subtree_maximum_unfold[OF n(1)])
  next
    case False
    from PNode.IH(2)[of "Some a" "FR l a k c # C"] n pr False show ?thesis
      by (simp add: subtree_maximum_unfold[OF n(1)])
  qed
qed

lemma stree_reparent:
  assumes "stree h (Some a) par t" "distinct (paddrs t)" "h a = Some n"
  shows "stree (h(a \<mapsto> n\<lparr>sparent := par'\<rparr>)) (Some a) par' t"
  using assms by (cases t) auto

lemma splay_join_both:
  assumes st: "stree (s_heap s1) (Some x) None (PNode L x k c R)"
    and root: "s_root s1 = Some x"
    and d: "distinct (paddrs (PNode L x k c R))"
    and L: "L \<noteq> PLeaf" and R: "R \<noteq> PLeaf"
  shows "\<exists>s5. (do {
               s \<leftarrow> s_set_parent (pptr R) None s1;
               let s = s\<lparr>s_root := pptr L\<rparr>;
               s \<leftarrow> s_set_parent (s_root s) None s;
               max_node \<leftarrow> subtree_maximum (s_root s) s;
               s \<leftarrow> splay max_node s;
               s \<leftarrow> s_set_right (s_root s) (pptr R) s;
               s_set_parent (pptr R) (s_root s) s
             }) = Some s5
     \<and> stree (s_heap s5) (s_root s5) None (splay_join L R)
     \<and> s_size s5 = s_size s1 \<and> s_alloc s5 = s_alloc s1"
proof -
  from L obtain L1 l kl cl L2 where Leq: "L = PNode L1 l kl cl L2" by (cases L) auto
  from R obtain R1 r kr cr R2 where Req: "R = PNode R1 r kr cr R2" by (cases R) auto
  from st obtain xn where xn: "s_heap s1 x = Some xn"
    "stree (s_heap s1) (sleft xn) (Some x) L" "stree (s_heap s1) (sright xn) (Some x) R" by auto
  from xn(2) Leq obtain ln where ln: "s_heap s1 l = Some ln" "sparent ln = Some x" by auto
  from xn(3) Req obtain rn where rn: "s_heap s1 r = Some rn" "sparent rn = Some x" "skey rn = kr"
    "stree (s_heap s1) (sleft rn) (Some r) R1" "stree (s_heap s1) (sright rn) (Some r) R2" by auto
  have lr: "l \<noteq> r" "l \<noteq> x" "r \<noteq> x" "r \<notin> set (paddrs L)" "x \<notin> set (paddrs L)"
    "l \<notin> set (paddrs R)" "set (paddrs L) \<inter> set (paddrs R) = {}"
    using d Leq Req by auto
  define s2 where "s2 = s1\<lparr>s_root := Some l,
      s_heap := (s_heap s1)(r \<mapsto> rn\<lparr>sparent := None\<rparr>, l \<mapsto> ln\<lparr>sparent := None\<rparr>)\<rparr>"
  have stL: "stree (s_heap s1) (Some l) (Some x) L" using xn(2) stree_ptr[OF xn(2)] Leq by simp
  have dL: "distinct (paddrs L)" using d by simp
  have "stree ((s_heap s1)(l \<mapsto> ln\<lparr>sparent := None\<rparr>)) (Some l) None L"
    by (rule stree_reparent[OF stL dL ln(1)])
  then have stL2: "stree (s_heap s2) (Some l) None L"
    unfolding s2_def using lr
    by (simp add: fun_upd_twist[of r l] del: stree_PNode)
  obtain Cm M where zm: "zmax [] L = (Cm, M)" by (cases "zmax [] L") auto
  from zmax_shape[OF L, of "[]"] zm obtain Mleft m km cm where M: "M = PNode Mleft m km cm PLeaf" by auto
  from zmax_FR[of "[]" L] zm have fr: "list_all is_FR Cm" by simp
  from zmax_plug[OF zm] have pl: "plug Cm M = L" by simp
  from subtree_maximum_zip[of s2 L None "[]"] stL2 Leq zm M
  have mx: "subtree_maximum (Some l) s2 = Some (Some m)" by simp
  from stL2 pl have "stree (s_heap s2) (s_root s2) None (plug Cm M)" by (simp add: s2_def)
  then obtain par where zc: "sctx (s_heap s2) (s_root s2) Cm (Some m) par"
    "stree (s_heap s2) (Some m) par M" unfolding stree_plug using M by auto
  have dz: "distinct (caddrs_l Cm @ paddrs M @ caddrs_r Cm)"
    using dL pl by (simp add: paddrs_plug[symmetric])
  have sz: "set (caddrs_l Cm @ paddrs M @ caddrs_r Cm) = set (paddrs L)"
    using pl by (simp add: paddrs_plug[symmetric])
  from splay_zip[OF zc dz] obtain s3 where s3: "splay (Some m) s2 = Some s3" "s_root s3 = Some m"
    "stree (s_heap s3) (Some m) None (zsplay Cm M)"
    "s_size s3 = s_size s2" "s_alloc s3 = s_alloc s2"
    "\<forall>a. a \<notin> set (paddrs L) \<longrightarrow> s_heap s3 a = s_heap s2 a" unfolding sz by blast
  from zsplay_right_spine[OF fr M] obtain L' where L': "zsplay Cm M = PNode L' m km cm PLeaf" by blast
  from paddrs_zsplay[of M Cm] M L' pl have aL': "paddrs L' @ [m] = paddrs L" by simp
  from s3(3) L' obtain mn where mn: "s_heap s3 m = Some mn" "skey mn = km" "sparent mn = None"
    "stree (s_heap s3) (sleft mn) (Some m) L'" "sright mn = None" by auto
  have mL: "m \<in> set (paddrs L)" "set (paddrs L') \<subseteq> set (paddrs L)" "m \<notin> set (paddrs L')"
    using aL' dL by (auto simp: aL'[symmetric])
  have r3: "s_heap s3 r = Some (rn\<lparr>sparent := None\<rparr>)"
    using s3(6) lr by (simp add: s2_def)
  define s5 where "s5 = s3\<lparr>s_heap := (s_heap s3)(m \<mapsto> mn\<lparr>sright := Some r\<rparr>, r \<mapsto> rn\<lparr>sparent := Some m\<rparr>)\<rparr>"
  have mr: "m \<noteq> r" using mL lr by auto
  have ev: "(do {
               s \<leftarrow> s_set_parent (pptr R) None s1;
               let s = s\<lparr>s_root := pptr L\<rparr>;
               s \<leftarrow> s_set_parent (s_root s) None s;
               max_node \<leftarrow> subtree_maximum (s_root s) s;
               s \<leftarrow> splay max_node s;
               s \<leftarrow> s_set_right (s_root s) (pptr R) s;
               s_set_parent (pptr R) (s_root s) s
             }) = Some s5"
    using rn ln lr Leq Req mx[unfolded s2_def] s3(1)[unfolded s2_def] s3(2) mn r3 mr
    by (simp add: s_prims s5_def)
  have agree: "\<forall>a. a \<notin> set (paddrs L) \<and> a \<noteq> r \<and> a \<noteq> m \<longrightarrow> s_heap s5 a = s_heap s1 a"
    using s3(6) lr by (auto simp: s5_def s2_def Leq)
  have R1: "stree (s_heap s5) (sleft rn) (Some r) R1"
    apply (rule stree_frame[OF rn(4)])
    using agree d Req mL lr by auto
  have R2: "stree (s_heap s5) (sright rn) (Some r) R2"
    apply (rule stree_frame[OF rn(5)])
    using agree d Req mL lr by auto
  have Lp: "stree (s_heap s5) (sleft mn) (Some m) L'"
  proof -
    have "r \<notin> set (paddrs L')" "m \<notin> set (paddrs L')" using mL lr by auto
    with mn(4) show ?thesis by (simp add: s5_def)
  qed
  have "stree (s_heap s5) (Some m) None (PNode L' m km cm R)"
    using R1 R2 Lp mn rn mr unfolding Req by (simp add: s5_def)
  moreover have "splay_join L R = PNode L' m km cm R"
    using L R zm L' by (simp add: splay_join_def)
  moreover have "s_root s5 = Some m" "s_size s5 = s_size s1" "s_alloc s5 = s_alloc s1"
    using s3 by (simp_all add: s5_def s2_def)
  ultimately show ?thesis using ev by simp
qed

lemma splay_join_keys: "pkeys (splay_join L R) = pkeys L @ pkeys R"
proof (cases "L = PLeaf \<or> R = PLeaf")
  case True
  then show ?thesis by (auto simp: splay_join_def)
next
  case False
  obtain Cm M where zm: "zmax [] L = (Cm, M)" by (cases "zmax [] L") auto
  from zmax_shape[of L "[]"] False zm obtain Mleft m km cm where M: "M = PNode Mleft m km cm PLeaf" by auto
  from zmax_FR[of "[]" L] zm have fr: "list_all is_FR Cm" by simp
  from zmax_plug[OF zm] have pl: "plug Cm M = L" by simp
  from zsplay_right_spine[OF fr M] obtain L' where L': "zsplay Cm M = PNode L' m km cm PLeaf" by blast
  from pkeys_zsplay[of M Cm] M L' pl have "pkeys L' @ [km] = pkeys L" by simp
  with False zm L' show ?thesis by (simp add: splay_join_def)
qed

lemma splay_join_addrs: "paddrs (splay_join L R) = paddrs L @ paddrs R"
proof (cases "L = PLeaf \<or> R = PLeaf")
  case True
  then show ?thesis by (auto simp: splay_join_def)
next
  case False
  obtain Cm M where zm: "zmax [] L = (Cm, M)" by (cases "zmax [] L") auto
  from zmax_shape[of L "[]"] False zm obtain Mleft m km cm where M: "M = PNode Mleft m km cm PLeaf" by auto
  from zmax_FR[of "[]" L] zm have fr: "list_all is_FR Cm" by simp
  from zmax_plug[OF zm] have pl: "plug Cm M = L" by simp
  from zsplay_right_spine[OF fr M] obtain L' where L': "zsplay Cm M = PNode L' m km cm PLeaf" by blast
  from paddrs_zsplay[of M Cm] M L' pl have "paddrs L' @ [m] = paddrs L" by simp
  with False zm L' show ?thesis by (simp add: splay_join_def)
qed

lemma splay_delete_rep:
  assumes "splay_rep s t"
  shows "\<exists>s'. splay_delete key s = Some s' \<and> splay_rep s' (splay_del key t)
     \<and> s_size s' = s_size s - (if pkey (splay_found key t) = Some key then 1 else 0)
     \<and> s_alloc s' = s_alloc s"
proof -
  let ?t1 = "splay_found key t"
  from splay_search_rep[OF assms, of key] obtain s1 where
    s1: "splay_search key s = Some (pkey ?t1 = Some key, s1)" "splay_rep s1 ?t1"
      "s_size s1 = s_size s" "s_alloc s1 = s_alloc s" by blast
  show ?thesis
  proof (cases "pkey ?t1 = Some key")
    case False
    then have "splay_del key t = ?t1"
      by (cases "t = PLeaf") (auto simp: splay_del_def splay_found_def split: ptree.splits)
    with s1 False show ?thesis by (simp add: splay_delete_def)
  next
    case True
    then obtain L x c R where t1: "?t1 = PNode L x key c R" by (cases ?t1) auto
    then have del: "splay_del key t = splay_join L R" by (simp add: splay_del_def)
    from s1(2) t1 have st: "stree (s_heap s1) (Some x) None (PNode L x key c R)"
      and root: "s_root s1 = Some x"
      and d: "distinct (paddrs (PNode L x key c R))"
      and al: "\<forall>a\<in>set (paddrs (PNode L x key c R)). a < s_alloc s1"
      using stree_ptr[of "s_heap s1" "s_root s1" None ?t1] by (simp_all add: splay_rep_def)
    from st obtain xn where xn: "s_heap s1 x = Some xn"
      "stree (s_heap s1) (sleft xn) (Some x) L" "stree (s_heap s1) (sright xn) (Some x) R" by auto
    note pL = stree_ptr[OF xn(2)] and pR = stree_ptr[OF xn(3)]
    have rl: "s_left s1 (s_root s1) = Some (pptr L)" "s_right s1 (s_root s1) = Some (pptr R)"
      using xn root pL pR by (simp_all add: s_prims)
    consider "L = PLeaf" "R = PLeaf" | Ra r Rk Rc Rb where "L = PLeaf" "R = PNode Ra r Rk Rc Rb"
      | La l Lk Lc Lb where "L = PNode La l Lk Lc Lb" "R = PLeaf" | "L \<noteq> PLeaf" "R \<noteq> PLeaf"
      by (cases L; cases R) auto
    then show ?thesis
    proof cases
      case 1
      with s1 True rl del show ?thesis
        by (simp add: splay_delete_def splay_rep_def splay_join_def)
    next
      case 2
      from xn(3) 2 obtain rn where rn: "s_heap s1 r = Some rn" by auto
      have "stree (s_heap s1) (Some r) (Some x) R" using xn(3) pR 2 by simp
      from stree_reparent[OF this _ rn, of None] d
      have "stree ((s_heap s1)(r \<mapsto> rn\<lparr>sparent := None\<rparr>)) (Some r) None R" by simp
      then have st': "stree ((s_heap s1)(r \<mapsto> rn\<lparr>sparent := None\<rparr>)) (Some r) None (splay_join L R)"
        using 2 by (simp add: splay_join_def del: stree_PNode)
      have sp: "s_set_parent (Some r) None (s1\<lparr>s_root := Some r\<rparr>) =
          Some (s1\<lparr>s_root := Some r, s_heap := (s_heap s1)(r \<mapsto> rn\<lparr>sparent := None\<rparr>)\<rparr>)"
        using rn by (simp add: s_prims)
      have ev: "splay_delete key s = Some (s1\<lparr>s_root := Some r,
           s_heap := (s_heap s1)(r \<mapsto> rn\<lparr>sparent := None\<rparr>), s_size := s_size s1 - 1\<rparr>)"
        using s1(1) True rl 2 sp by (simp add: splay_delete_def Let_def)
      have "paddrs (splay_join L R) = paddrs R" using 2 by (simp add: splay_join_def)
      with ev st' s1 True del d al show ?thesis
        by (simp add: splay_rep_def del: stree_PNode)
    next
      case 3
      from xn(2) 3 obtain ln where ln: "s_heap s1 l = Some ln" by auto
      have "stree (s_heap s1) (Some l) (Some x) L" using xn(2) pL 3 by simp
      from stree_reparent[OF this _ ln, of None] d
      have "stree ((s_heap s1)(l \<mapsto> ln\<lparr>sparent := None\<rparr>)) (Some l) None L" by simp
      then have st': "stree ((s_heap s1)(l \<mapsto> ln\<lparr>sparent := None\<rparr>)) (Some l) None (splay_join L R)"
        using 3 by (simp add: splay_join_def del: stree_PNode)
      have sp: "s_set_parent (Some l) None (s1\<lparr>s_root := Some l\<rparr>) =
          Some (s1\<lparr>s_root := Some l, s_heap := (s_heap s1)(l \<mapsto> ln\<lparr>sparent := None\<rparr>)\<rparr>)"
        using ln by (simp add: s_prims)
      have ev: "splay_delete key s = Some (s1\<lparr>s_root := Some l,
           s_heap := (s_heap s1)(l \<mapsto> ln\<lparr>sparent := None\<rparr>), s_size := s_size s1 - 1\<rparr>)"
        using s1(1) True rl 3 sp by (simp add: splay_delete_def Let_def)
      have "paddrs (splay_join L R) = paddrs L" using 3 by (simp add: splay_join_def)
      with ev st' s1 True del d al show ?thesis
        by (simp add: splay_rep_def del: stree_PNode)
    next
      case 4
      from splay_join_both[OF st root d 4] obtain s5 where s5: "(do {
               s \<leftarrow> s_set_parent (pptr R) None s1;
               let s = s\<lparr>s_root := pptr L\<rparr>;
               s \<leftarrow> s_set_parent (s_root s) None s;
               max_node \<leftarrow> subtree_maximum (s_root s) s;
               s \<leftarrow> splay max_node s;
               s \<leftarrow> s_set_right (s_root s) (pptr R) s;
               s_set_parent (pptr R) (s_root s) s
             }) = Some s5"
        "stree (s_heap s5) (s_root s5) None (splay_join L R)"
        "s_size s5 = s_size s1" "s_alloc s5 = s_alloc s1" by blast
      have ev: "splay_delete key s = Some (s5\<lparr>s_size := s_size s5 - 1\<rparr>)"
        using s1(1) True rl 4 s5(1) by (simp add: splay_delete_def Let_def)
      have "splay_rep (s5\<lparr>s_size := s_size s5 - 1\<rparr>) (splay_join L R)"
        using s5 d al by (auto simp add: splay_rep_def splay_join_addrs)
      with ev del s5 s1 True show ?thesis by simp
    qed
  qed
qed

lemma splay_init_inv: "splay_inv splay_init PLeaf"
  by (simp add: splay_inv_def splay_rep_def splay_init_def)

lemma splay_insert_inv:
  assumes "splay_inv s t"
  shows "\<exists>s'. splay_insert key s = Some s' \<and> splay_inv s' (splay_ins key (s_alloc s) t)
     \<and> set (pkeys (splay_ins key (s_alloc s) t)) = insert key (set (pkeys t))
     \<and> s_size s' = s_size s + (if key \<in> set (pkeys t) then 0 else 1)"
proof -
  from assms have r: "splay_rep s t" and srt: "sorted_wrt (<) (pkeys t)"
    and sz: "s_size s = int (length (pkeys t))" by (simp_all add: splay_inv_def)
  from splay_insert_rep[OF r, of key] obtain s' where
    s': "splay_insert key s = Some s'" "splay_rep s' (splay_ins key (s_alloc s) t)"
     "s_size s' = s_size s + (if t = PLeaf \<or> snd (zins key [] t) = PLeaf then 1 else 0)" by blast
  have e: "(t = PLeaf \<or> snd (zins key [] t) = PLeaf) \<longleftrightarrow> key \<notin> set (pkeys t)"
    using zins_result_keys[OF srt, of key] by (cases t) auto
  from s' e sz splay_ins_keys[OF srt, of key "s_alloc s"] splay_ins_length[OF srt, of key "s_alloc s"]
  show ?thesis by (auto simp: splay_inv_def)
qed

lemma splay_search_inv:
  assumes "splay_inv s t"
  shows "\<exists>s'. splay_search key s = Some (key \<in> set (pkeys t), s')
     \<and> splay_inv s' (splay_found key t) \<and> s_size s' = s_size s"
proof -
  from assms have r: "splay_rep s t" and srt: "sorted_wrt (<) (pkeys t)"
    and sz: "s_size s = int (length (pkeys t))" by (simp_all add: splay_inv_def)
  from splay_search_rep[OF r, of key] splay_found_pkey[OF srt, of key] srt sz
  show ?thesis by (auto simp: splay_inv_def)
qed

lemma sorted_remove_mid:
  "sorted_wrt (<) (xs @ (k::int) # ys) \<Longrightarrow>
     sorted_wrt (<) (xs @ ys) \<and> set (xs @ ys) = set (xs @ k # ys) - {k}"
  by (auto simp: sorted_wrt_append)

lemma splay_del_keys:
  assumes "sorted_wrt (<) (pkeys t)"
  shows "sorted_wrt (<) (pkeys (splay_del key t))
     \<and> set (pkeys (splay_del key t)) = set (pkeys t) - {key}
     \<and> int (length (pkeys (splay_del key t))) =
         int (length (pkeys t)) - (if key \<in> set (pkeys t) then 1 else 0)"
proof (cases "pkey (splay_found key t) = Some key")
  case False
  then have "splay_del key t = splay_found key t"
    by (cases "t = PLeaf") (auto simp: splay_del_def splay_found_def split: ptree.splits)
  with False splay_found_pkey[OF assms, of key] assms show ?thesis by simp
next
  case True
  then obtain L x c R where t1: "splay_found key t = PNode L x key c R"
    by (cases "splay_found key t") auto
  then have del: "splay_del key t = splay_join L R" by (simp add: splay_del_def)
  from t1 have k: "pkeys t = pkeys L @ key # pkeys R"
    using splay_found_keys[of key t] by simp
  from sorted_remove_mid[of "pkeys L" key "pkeys R"] assms k del
  show ?thesis by (simp add: splay_join_keys)
qed

lemma splay_delete_inv:
  assumes "splay_inv s t"
  shows "\<exists>s'. splay_delete key s = Some s' \<and> splay_inv s' (splay_del key t)
     \<and> set (pkeys (splay_del key t)) = set (pkeys t) - {key}
     \<and> s_size s' = s_size s - (if key \<in> set (pkeys t) then 1 else 0)"
proof -
  from assms have r: "splay_rep s t" and srt: "sorted_wrt (<) (pkeys t)"
    and sz: "s_size s = int (length (pkeys t))" by (simp_all add: splay_inv_def)
  from splay_delete_rep[OF r, of key] splay_found_pkey[OF srt, of key] splay_del_keys[OF srt, of key] sz
  show ?thesis by (auto simp: splay_inv_def)
qed

lemma splay_apply_inv:
  assumes "splay_inv s t"
  shows "\<exists>s' t'. splay_apply x s = Some s' \<and> splay_inv s' t'
     \<and> set (pkeys t') = keys_after [x] (set (pkeys t))"
proof (cases x)
  case (Insert k)
  from splay_insert_inv[OF assms, of k] show ?thesis unfolding Insert by auto
next
  case (Search k)
  from splay_search_inv[OF assms, of k] obtain s' where
    "splay_search k s = Some (k \<in> set (pkeys t), s')" "splay_inv s' (splay_found k t)" by blast
  then show ?thesis unfolding Search
    by (auto intro!: exI[of _ "splay_found k t"])
next
  case (Delete k)
  from splay_delete_inv[OF assms, of k] show ?thesis unfolding Delete by auto
qed

lemma keys_after_append: "keys_after (xs @ ys) K = keys_after ys (keys_after xs K)"
  by (induction xs K rule: keys_after.induct) auto

lemma splay_run_inv:
  "splay_inv s t \<Longrightarrow> \<exists>s' t'. splay_run xs s = Some s' \<and> splay_inv s' t'
     \<and> set (pkeys t') = keys_after xs (set (pkeys t))"
proof (induction xs arbitrary: s t)
  case Nil
  then show ?case by auto
next
  case (Cons x xs)
  from splay_apply_inv[OF Cons.prems, of x] obtain s1 t1 where
    1: "splay_apply x s = Some s1" "splay_inv s1 t1"
    "set (pkeys t1) = keys_after [x] (set (pkeys t))" by blast
  from Cons.IH[OF 1(2)] 1(1,3) show ?case by (cases x) auto
qed

lemma stree_unique:
  "stree h p par t \<Longrightarrow> stree h p par' t' \<Longrightarrow> t = t'"
proof (induction t arbitrary: p par par' t')
  case PLeaf
  then show ?case by (cases t') auto
next
  case N: (PNode l a k c r)
  show ?case
  proof (cases t')
    case PLeaf
    with N.prems show ?thesis by auto
  next
    case (PNode l' a' k' c' r')
    from N.prems(1) obtain n where n: "p = Some a" "h a = Some n" "skey n = k"
      "stree h (sleft n) (Some a) l" "stree h (sright n) (Some a) r" by auto
    from N.prems(2) PNode n have n': "a' = a" "k' = k"
      "stree h (sleft n) (Some a) l'" "stree h (sright n) (Some a) r'" by auto
    from N.IH(1)[OF n(4) n'(3)] N.IH(2)[OF n(5) n'(4)] n' PNode show ?thesis by simp
  qed
qed

lemma splay_rep_unique: "splay_rep s t \<Longrightarrow> splay_rep s t' \<Longrightarrow> t = t'"
  unfolding splay_rep_def using stree_unique by blast

lemma sorted_last_Max:
  "sorted_wrt (<) (xs::int list) \<Longrightarrow> xs \<noteq> [] \<Longrightarrow> last xs = Max (set xs)"
proof (induction xs)
  case Nil
  then show ?case by simp
next
  case (Cons x xs)
  show ?case
  proof (cases "xs = []")
    case True
    then show ?thesis by simp
  next
    case False
    with Cons have l: "last xs = Max (set xs)" by simp
    from Cons.prems(1) False have "x < Max (set xs)" by simp
    with False l show ?thesis by (simp add: max_def)
  qed
qed

lemma pkeys_Nil [simp]: "pkeys t = [] \<longleftrightarrow> t = PLeaf"
  by (cases t) auto

lemma splay_join_shape:
  assumes "L \<noteq> PLeaf" "R \<noteq> PLeaf"
  shows "\<exists>L' m c. splay_join L R = PNode L' m (last (pkeys L)) c R
     \<and> paddrs L' @ [m] = paddrs L \<and> pkeys L' @ [last (pkeys L)] = pkeys L"
proof -
  obtain Cm M where zm: "zmax [] L = (Cm, M)" by (cases "zmax [] L") auto
  from zmax_shape[of L "[]"] assms zm obtain Mleft m km cm where M: "M = PNode Mleft m km cm PLeaf" by auto
  from zmax_FR[of "[]" L] zm have fr: "list_all is_FR Cm" by simp
  from zmax_plug[OF zm] have pl: "plug Cm M = L" by simp
  from zsplay_right_spine[OF fr M] obtain L' where L': "zsplay Cm M = PNode L' m km cm PLeaf" by blast
  from paddrs_zsplay[of M Cm] M L' pl have a: "paddrs L' @ [m] = paddrs L" by simp
  from pkeys_zsplay[of M Cm] M L' pl have k: "pkeys L' @ [km] = pkeys L" by simp
  then have "last (pkeys L) = km" by (metis last_snoc)
  with assms zm L' a k show ?thesis by (simp add: splay_join_def)
qed


lemma splay_run_init:
  "\<exists>s t. splay_run xs splay_init = Some s \<and> splay_inv s t \<and> set (pkeys t) = keys_after xs {}"
  using splay_run_inv[OF splay_init_inv, of xs] by auto

section \<open>Red-Black: the store operations refine operations on tree values\<close>

lemma rtree_PNode:
  "rtree h nil p par (PNode l a k c r) \<longleftrightarrow> p = Some a \<and> a \<noteq> nil \<and>
     (\<exists>n. h a = Some n \<and> rkey n = Some k \<and> rcolor n = c \<and> rparent n = par
          \<and> rtree h nil (rleft n) (Some a) l \<and> rtree h nil (rright n) (Some a) r)"
  by (auto split: option.splits)

lemma rctx_FL:
  "rctx h nil root (FL a k c r # C) p par \<longleftrightarrow> par = Some a \<and> a \<noteq> nil \<and>
     (\<exists>n. h a = Some n \<and> rkey n = Some k \<and> rcolor n = c \<and> rleft n = p
          \<and> rtree h nil (rright n) (Some a) r \<and> rctx h nil root C (Some a) (rparent n))"
  by (auto split: option.splits)

lemma rctx_FR:
  "rctx h nil root (FR l a k c # C) p par \<longleftrightarrow> par = Some a \<and> a \<noteq> nil \<and>
     (\<exists>n. h a = Some n \<and> rkey n = Some k \<and> rcolor n = c \<and> rright n = p
          \<and> rtree h nil (rleft n) (Some a) l \<and> rctx h nil root C (Some a) (rparent n))"
  by (auto split: option.splits)

declare rtree.simps(2) [simp del] rctx.simps(2,3) [simp del]

declare rtree_PNode [simp] rctx_FL [simp] rctx_FR [simp]

lemmas r_prims = r_get_def r_put_def r_key_def r_color_def r_left_def r_right_def r_parent_def
  r_set_color_def r_set_left_def r_set_right_def r_set_parent_def

lemma rtree_ptr: "rtree h nil p par t \<Longrightarrow> p = rptr nil t"
  by (cases t) auto

lemma rtree_at_ptr: "rtree h nil p par t \<Longrightarrow> rtree h nil (rptr nil t) par t"
  by (cases t) auto

lemma rptr_in: "rptr nil t = Some a \<Longrightarrow> a = nil \<or> a \<in> set (paddrs t)"
  by (cases t) auto

lemma rptr_notin [simp]: "a \<notin> set (paddrs t) \<Longrightarrow> a \<noteq> nil \<Longrightarrow> rptr nil t \<noteq> Some a"
  by (cases t) auto

lemma rptr_notin' [simp]: "a \<notin> set (paddrs t) \<Longrightarrow> a \<noteq> nil \<Longrightarrow> Some a \<noteq> rptr nil t"
  by (cases t) auto

lemma rptr_nil [simp]: "nil \<notin> set (paddrs t) \<Longrightarrow> rptr nil t = Some nil \<longleftrightarrow> t = PLeaf"
  by (cases t) auto

lemma rtree_upd [simp]:
  "a \<notin> set (paddrs t) \<Longrightarrow> rtree (h(a \<mapsto> n)) nil p par t = rtree h nil p par t"
  by (induction t arbitrary: p par) auto

lemma rctx_upd [simp]:
  "a \<notin> set (caddrs_l C) \<Longrightarrow> a \<notin> set (caddrs_r C) \<Longrightarrow>
   rctx (h(a \<mapsto> n)) nil root C p par = rctx h nil root C p par"
  by (induction C arbitrary: p par rule: caddrs_l.induct) auto

lemma rtree_nil_notin: "rtree h nil p par t \<Longrightarrow> nil \<notin> set (paddrs t)"
  by (induction t arbitrary: p par) auto

lemma rctx_nil_notin: "rctx h nil root C p par \<Longrightarrow> nil \<notin> set (caddrs_l C @ caddrs_r C)"
  by (induction C arbitrary: p par rule: caddrs_l.induct) (auto dest: rtree_nil_notin)

lemma rtree_frame:
  "rtree h nil p par t \<Longrightarrow> (\<forall>a\<in>set (paddrs t). h' a = h a) \<Longrightarrow> rtree h' nil p par t"
  by (induction t arbitrary: p par) auto

lemma rtree_plug:
  "rtree h nil root None (plug C t) \<longleftrightarrow>
     (\<exists>par. rctx h nil root C (rptr nil t) par \<and> rtree h nil (rptr nil t) par t)"
proof (induction C arbitrary: t rule: caddrs_l.induct)
  case 1
  then show ?case by (auto dest: rtree_ptr)
next
  case (2 a k c r C)
  show ?case
    unfolding plug.simps fill.simps 2
    by (auto dest: rtree_ptr intro: rtree_at_ptr)
next
  case (3 l a k c C)
  show ?case
    unfolding plug.simps fill.simps 3
    by (auto dest: rtree_ptr intro: rtree_at_ptr)
qed

lemma r_same_refl [simp]: "r_same s s X"
  by (simp add: r_same_def)

lemma r_same_trans: "r_same s s1 X \<Longrightarrow> r_same s1 s2 Y \<Longrightarrow> X \<subseteq> Z \<Longrightarrow> Y \<subseteq> Z \<Longrightarrow> r_same s s2 Z"
  unfolding r_same_def by (metis subsetD)

lemma fun_upd_other_rev: "x \<noteq> z \<Longrightarrow> (f(x := y)) z = f z"
  by simp

lemmas upd_simps = fun_upd_same fun_upd_other fun_upd_other_rev

lemma rb_rotate_left_rep:
  assumes "rctx (r_heap s) nil (r_root s) C (Some x) par"
    "rtree (r_heap s) nil (Some x) par (PNode L x kx cx (PNode B y ky cy A))"
    "distinct (caddrs_l C @ paddrs (PNode L x kx cx (PNode B y ky cy A)) @ caddrs_r C)"
    "r_NIL s = Some nil"
  shows "\<exists>s'. rb_rotate_left (Some x) s = Some s'
     \<and> rctx (r_heap s') nil (r_root s') C (Some y) par
     \<and> rtree (r_heap s') nil (Some y) par (PNode (PNode L x kx cx B) y ky cy A)
     \<and> r_same s s' (set (caddrs_l C @ paddrs (PNode L x kx cx (PNode B y ky cy A)) @ caddrs_r C))"
proof -
  from assms(2) obtain xn yn where
    xn: "r_heap s x = Some xn" "rkey xn = Some kx" "rcolor xn = cx" "rparent xn = par"
      "rright xn = Some y" "rtree (r_heap s) nil (rleft xn) (Some x) L" and
    yn: "r_heap s y = Some yn" "rkey yn = Some ky" "rcolor yn = cy" "rparent yn = Some x"
      "rtree (r_heap s) nil (rright yn) (Some y) A" "rtree (r_heap s) nil (rleft yn) (Some y) B"
    and nn: "x \<noteq> nil" "y \<noteq> nil"
    by auto
  note pA = rtree_ptr[OF yn(5)] and pB = rtree_ptr[OF yn(6)] and pL = rtree_ptr[OF xn(6)]
  from rctx_nil_notin[OF assms(1)] rtree_nil_notin[OF assms(2)]
  have nil: "nil \<notin> set (caddrs_l C)" "nil \<notin> set (caddrs_r C)" "nil \<notin> set (paddrs L)"
    "nil \<notin> set (paddrs A)" "nil \<notin> set (paddrs B)" by auto
  show ?thesis
  proof (cases C rule: caddrs_l.cases)
    case 1
    with assms(1) have par: "par = None" "r_root s = Some x" by auto
    show ?thesis
    proof (cases B)
      case PLeaf
      with pB have "rleft yn = Some nil" by simp
      with xn yn nn nil assms(3)[unfolded 1 PLeaf] assms(4) par 1 PLeaf pA pL show ?thesis
        by (simp add: rb_rotate_left_def r_prims r_same_def upd_simps del: fun_upd_apply)
    next
      case (PNode B1 b kb cb B2)
      with yn(6) obtain bn where bn: "rleft yn = Some b" "r_heap s b = Some bn" "rkey bn = Some kb"
        "rcolor bn = cb" "b \<noteq> nil"
        "rtree (r_heap s) nil (rleft bn) (Some b) B1" "rtree (r_heap s) nil (rright bn) (Some b) B2"
        by auto
      with xn yn nn nil assms(3)[unfolded 1 PNode] assms(4) par 1 PNode pA pL show ?thesis
        by (simp add: rb_rotate_left_def r_prims r_same_def upd_simps del: fun_upd_apply)
    qed
  next
    case (2 pa kp cp Rp C')
    with assms(1) obtain pn where par: "par = Some pa" "pa \<noteq> nil" and
      pn: "r_heap s pa = Some pn" "rkey pn = Some kp" "rcolor pn = cp" "rleft pn = Some x"
        "rtree (r_heap s) nil (rright pn) (Some pa) Rp"
        "rctx (r_heap s) nil (r_root s) C' (Some pa) (rparent pn)"
      by auto
    note pRp = rtree_ptr[OF pn(5)]
    show ?thesis
    proof (cases B)
      case PLeaf
      with pB have "rleft yn = Some nil" by simp
      with xn yn nn nil pn assms(3)[unfolded 2 PLeaf] assms(4) par 2 PLeaf pA pL pRp show ?thesis
        by (simp add: rb_rotate_left_def r_prims r_same_def upd_simps del: fun_upd_apply)
    next
      case (PNode B1 b kb cb B2)
      with yn(6) obtain bn where bn: "rleft yn = Some b" "r_heap s b = Some bn" "rkey bn = Some kb"
        "rcolor bn = cb" "b \<noteq> nil"
        "rtree (r_heap s) nil (rleft bn) (Some b) B1" "rtree (r_heap s) nil (rright bn) (Some b) B2"
        by auto
      with xn yn nn nil pn assms(3)[unfolded 2 PNode] assms(4) par 2 PNode pA pL pRp show ?thesis
        by (simp add: rb_rotate_left_def r_prims r_same_def upd_simps del: fun_upd_apply)
    qed
  next
    case (3 Lp pa kp cp C')
    with assms(1) obtain pn where par: "par = Some pa" "pa \<noteq> nil" and
      pn: "r_heap s pa = Some pn" "rkey pn = Some kp" "rcolor pn = cp" "rright pn = Some x"
        "rtree (r_heap s) nil (rleft pn) (Some pa) Lp"
        "rctx (r_heap s) nil (r_root s) C' (Some pa) (rparent pn)"
      by auto
    note pLp = rtree_ptr[OF pn(5)]
    from rtree_nil_notin[OF pn(5)] have nLp: "nil \<notin> set (paddrs Lp)" .
    show ?thesis
    proof (cases B)
      case PLeaf
      with pB have "rleft yn = Some nil" by simp
      with xn yn nn nil pn assms(3)[unfolded 3 PLeaf] assms(4) par 3 PLeaf pA pL pLp nLp show ?thesis
        by (simp add: rb_rotate_left_def r_prims r_same_def upd_simps del: fun_upd_apply)
    next
      case (PNode B1 b kb cb B2)
      with yn(6) obtain bn where bn: "rleft yn = Some b" "r_heap s b = Some bn" "rkey bn = Some kb"
        "rcolor bn = cb" "b \<noteq> nil"
        "rtree (r_heap s) nil (rleft bn) (Some b) B1" "rtree (r_heap s) nil (rright bn) (Some b) B2"
        by auto
      with xn yn nn nil pn assms(3)[unfolded 3 PNode] assms(4) par 3 PNode pA pL pLp nLp show ?thesis
        by (simp add: rb_rotate_left_def r_prims r_same_def upd_simps del: fun_upd_apply)
    qed
  qed
qed

lemma rb_rotate_right_rep:
  assumes "rctx (r_heap s) nil (r_root s) C (Some x) par"
    "rtree (r_heap s) nil (Some x) par (PNode (PNode A y ky cy B) x kx cx R)"
    "distinct (caddrs_l C @ paddrs (PNode (PNode A y ky cy B) x kx cx R) @ caddrs_r C)"
    "r_NIL s = Some nil"
  shows "\<exists>s'. rb_rotate_right (Some x) s = Some s'
     \<and> rctx (r_heap s') nil (r_root s') C (Some y) par
     \<and> rtree (r_heap s') nil (Some y) par (PNode A y ky cy (PNode B x kx cx R))
     \<and> r_same s s' (set (caddrs_l C @ paddrs (PNode (PNode A y ky cy B) x kx cx R) @ caddrs_r C))"
proof -
  from assms(2) obtain xn yn where
    xn: "r_heap s x = Some xn" "rkey xn = Some kx" "rcolor xn = cx" "rparent xn = par"
      "rleft xn = Some y" "rtree (r_heap s) nil (rright xn) (Some x) R" and
    yn: "r_heap s y = Some yn" "rkey yn = Some ky" "rcolor yn = cy" "rparent yn = Some x"
      "rtree (r_heap s) nil (rleft yn) (Some y) A" "rtree (r_heap s) nil (rright yn) (Some y) B"
    and nn: "x \<noteq> nil" "y \<noteq> nil"
    by auto
  note pA = rtree_ptr[OF yn(5)] and pB = rtree_ptr[OF yn(6)] and pR = rtree_ptr[OF xn(6)]
  from rctx_nil_notin[OF assms(1)] rtree_nil_notin[OF assms(2)]
  have nil: "nil \<notin> set (caddrs_l C)" "nil \<notin> set (caddrs_r C)" "nil \<notin> set (paddrs R)"
    "nil \<notin> set (paddrs A)" "nil \<notin> set (paddrs B)" by auto
  show ?thesis
  proof (cases C rule: caddrs_l.cases)
    case 1
    with assms(1) have par: "par = None" "r_root s = Some x" by auto
    show ?thesis
    proof (cases B)
      case PLeaf
      with pB have "rright yn = Some nil" by simp
      with xn yn nn nil assms(3)[unfolded 1 PLeaf] assms(4) par 1 PLeaf pA pR show ?thesis
        by (simp add: rb_rotate_right_def r_prims r_same_def upd_simps del: fun_upd_apply)
    next
      case (PNode B1 b kb cb B2)
      with yn(6) obtain bn where bn: "rright yn = Some b" "r_heap s b = Some bn" "rkey bn = Some kb"
        "rcolor bn = cb" "b \<noteq> nil"
        "rtree (r_heap s) nil (rleft bn) (Some b) B1" "rtree (r_heap s) nil (rright bn) (Some b) B2"
        by auto
      with xn yn nn nil assms(3)[unfolded 1 PNode] assms(4) par 1 PNode pA pR show ?thesis
        by (simp add: rb_rotate_right_def r_prims r_same_def upd_simps del: fun_upd_apply)
    qed
  next
    case (2 pa kp cp Rp C')
    with assms(1) obtain pn where par: "par = Some pa" "pa \<noteq> nil" and
      pn: "r_heap s pa = Some pn" "rkey pn = Some kp" "rcolor pn = cp" "rleft pn = Some x"
        "rtree (r_heap s) nil (rright pn) (Some pa) Rp"
        "rctx (r_heap s) nil (r_root s) C' (Some pa) (rparent pn)"
      by auto
    note pRp = rtree_ptr[OF pn(5)]
    from rtree_nil_notin[OF pn(5)] have nRp: "nil \<notin> set (paddrs Rp)" .
    show ?thesis
    proof (cases B)
      case PLeaf
      with pB have "rright yn = Some nil" by simp
      with xn yn nn nil pn assms(3)[unfolded 2 PLeaf] assms(4) par 2 PLeaf pA pR pRp nRp show ?thesis
        by (simp add: rb_rotate_right_def r_prims r_same_def upd_simps del: fun_upd_apply)
    next
      case (PNode B1 b kb cb B2)
      with yn(6) obtain bn where bn: "rright yn = Some b" "r_heap s b = Some bn" "rkey bn = Some kb"
        "rcolor bn = cb" "b \<noteq> nil"
        "rtree (r_heap s) nil (rleft bn) (Some b) B1" "rtree (r_heap s) nil (rright bn) (Some b) B2"
        by auto
      with xn yn nn nil pn assms(3)[unfolded 2 PNode] assms(4) par 2 PNode pA pR pRp nRp show ?thesis
        by (simp add: rb_rotate_right_def r_prims r_same_def upd_simps del: fun_upd_apply)
    qed
  next
    case (3 Lp pa kp cp C')
    with assms(1) obtain pn where par: "par = Some pa" "pa \<noteq> nil" and
      pn: "r_heap s pa = Some pn" "rkey pn = Some kp" "rcolor pn = cp" "rright pn = Some x"
        "rtree (r_heap s) nil (rleft pn) (Some pa) Lp"
        "rctx (r_heap s) nil (r_root s) C' (Some pa) (rparent pn)"
      by auto
    note pLp = rtree_ptr[OF pn(5)]
    from rtree_nil_notin[OF pn(5)] have nLp: "nil \<notin> set (paddrs Lp)" .
    show ?thesis
    proof (cases B)
      case PLeaf
      with pB have "rright yn = Some nil" by simp
      with xn yn nn nil pn assms(3)[unfolded 3 PLeaf] assms(4) par 3 PLeaf pA pR pLp nLp show ?thesis
        by (simp add: rb_rotate_right_def r_prims r_same_def upd_simps del: fun_upd_apply)
    next
      case (PNode B1 b kb cb B2)
      with yn(6) obtain bn where bn: "rright yn = Some b" "r_heap s b = Some bn" "rkey bn = Some kb"
        "rcolor bn = cb" "b \<noteq> nil"
        "rtree (r_heap s) nil (rleft bn) (Some b) B1" "rtree (r_heap s) nil (rright bn) (Some b) B2"
        by auto
      with xn yn nn nil pn assms(3)[unfolded 3 PNode] assms(4) par 3 PNode pA pR pLp nLp show ?thesis
        by (simp add: rb_rotate_right_def r_prims r_same_def upd_simps del: fun_upd_apply)
    qed
  qed
qed

section \<open>Size consistency\<close>

text \<open>
  C1 (size consistency, all engines): \<open>size()\<close> is the number of distinct keys stored, and
  a delete of an absent key leaves it unchanged. The AVL engine breaks this: on a new tree,
  \<open>insert(10)\<close> followed by \<open>delete(20)\<close> returns normally with key 10 still stored
  (\<open>search(10)\<close> is true, \<open>search(20)\<close> was false before the delete), and the size counter
  has gone from 1 to 0.
\<close>

theorem avl_delete_absent_breaks_size:
  "(avl_insert 10 avl_init \<bind> avl_delete 20)
     = Some \<lparr>avl_root = ANode ALeaf 10 1 ALeaf, avl_size = 0\<rparr>
   \<and> (avl_insert 10 avl_init \<bind> (\<lambda>t. Some (avl_search 20 t, avl_get_size t))) = Some (False, 1)
   \<and> (avl_insert 10 avl_init \<bind> avl_delete 20 \<bind> (\<lambda>t. Some (avl_search 10 t, avl_get_size t)))
       = Some (True, 0)"
  by code_simp

section \<open>AVL balance\<close>

text \<open>
  C4 (AVL balance invariant): every sequence of inserts, searches and deletes on a new
  \<open>AVLTree\<close> returns normally, and in the resulting tree every node has subtrees whose
  heights differ by at most one, and every stored \<open>height\<close> field is one more than the
  larger of the children's heights (0 for an absent child).
\<close>

theorem avl_balance_invariant:
  "\<exists>t. avl_run xs avl_init = Some t \<and> avl_balanced (avl_root t) \<and> avl_heights_stored (avl_root t)"
  using avl_run_ok[OF avl_init_inv, of xs] avl_inv_balanced
  by (auto simp: avl_state_inv_def)

theorem avl_balance_invariant_witness:
  "\<exists>t. avl_run [Insert 10, Insert 20, Insert 30, Insert 40, Insert 50, Delete 20, Delete 40] avl_init = Some t
     \<and> avl_root t = ANode (ANode ALeaf 10 1 ALeaf) 30 2 (ANode ALeaf 50 1 ALeaf)
     \<and> avl_balanced (avl_root t) \<and> avl_heights_stored (avl_root t)"
proof -
  have "avl_run [Insert 10, Insert 20, Insert 30, Insert 40, Insert 50, Delete 20, Delete 40] avl_init
      = Some \<lparr>avl_root = ANode (ANode ALeaf 10 1 ALeaf) 30 2 (ANode ALeaf 50 1 ALeaf), avl_size = 3\<rparr>"
    by code_simp
  with avl_balance_invariant[of "[Insert 10, Insert 20, Insert 30, Insert 40, Insert 50, Delete 20, Delete 40]"]
  show ?thesis by auto
qed

section \<open>Splay: root after a search, join in delete\<close>

text \<open>
  C6 (Splay root property): after any sequence of operations on a new \<open>SplayTree\<close> the
  store holds a tree \<open>t\<close> whose keys are the keys present, and \<open>search(k)\<close> returns
  normally. If \<open>k\<close> is present it returns true and the root's key is \<open>k\<close>; if \<open>k\<close> is
  absent and the tree is not empty it returns false and the root is the last object on the
  search path for \<open>k\<close> in \<open>t\<close>.
\<close>

theorem splay_search_root:
  "\<exists>s t found s'. splay_run xs splay_init = Some s \<and> splay_rep s t
     \<and> set (pkeys t) = keys_after xs {}
     \<and> splay_search k s = Some (found, s')
     \<and> (k \<in> set (pkeys t) \<longrightarrow> found \<and> s_key s' (s_root s') = Some k)
     \<and> (k \<notin> set (pkeys t) \<and> t \<noteq> PLeaf \<longrightarrow>
           \<not> found \<and> s_root s' = Some (last (search_path k t)))"
proof -
  from splay_run_inv[OF splay_init_inv, of xs] obtain s t where
    st: "splay_run xs splay_init = Some s" "splay_inv s t" "set (pkeys t) = keys_after xs {}"
    by auto
  from splay_search_inv[OF st(2), of k] obtain s' where
    s': "splay_search k s = Some (k \<in> set (pkeys t), s')" "splay_inv s' (splay_found k t)" by blast
  from st(2) have srt: "sorted_wrt (<) (pkeys t)" and rep: "splay_rep s t"
    by (simp_all add: splay_inv_def)
  from s'(2) have rep': "stree (s_heap s') (s_root s') None (splay_found k t)"
    by (simp add: splay_inv_def splay_rep_def)
  have 1: "s_key s' (s_root s') = Some k" if "k \<in> set (pkeys t)"
  proof -
    from that splay_found_pkey[OF srt, of k] obtain L x c R where
      "splay_found k t = PNode L x k c R" by (cases "splay_found k t") auto
    with rep' show ?thesis by (auto simp: s_prims)
  qed
  have 2: "s_root s' = Some (last (search_path k t))" if "t \<noteq> PLeaf"
    using stree_ptr[OF rep'] splay_found_root[OF that, of k] by simp
  from st rep s' 1 2 show ?thesis by auto
qed

theorem splay_search_root_witness:
  "(\<exists>s s'. splay_run [Insert 10, Insert 20, Insert 30] splay_init = Some s
      \<and> splay_search 20 s = Some (True, s') \<and> s_key s' (s_root s') = Some 20)
   \<and> map_option (\<lambda>(found, s'). (found, s_root s'))
        (splay_run [Insert 10, Insert 20, Insert 30] splay_init \<bind> splay_search 25)
       = Some (False, Some 1)"
proof (rule conjI)
  have k: "(20::int) \<in> keys_after [Insert 10, Insert 20, Insert 30] {}" by simp
  from splay_search_root[of "[Insert 10, Insert 20, Insert 30]" 20]
  show "\<exists>s s'. splay_run [Insert 10, Insert 20, Insert 30] splay_init = Some s
      \<and> splay_search 20 s = Some (True, s') \<and> s_key s' (s_root s') = Some 20"
    apply (elim exE conjE)
    subgoal for s t found s'
      apply (rule exI[of _ s])
      apply (rule exI[of _ s'])
      using k apply simp
      done
    done
next
  show "map_option (\<lambda>(found, s'). (found, s_root s'))
        (splay_run [Insert 10, Insert 20, Insert 30] splay_init \<bind> splay_search 25)
       = Some (False, Some 1)"
    by code_simp
qed

text \<open>
  C8 (two-tree join): in a state reached by any sequence of operations, let \<open>search(k)\<close>
  find \<open>k\<close> and leave it at the root with non-empty subtrees \<open>L\<close> and \<open>R\<close>. Then
  \<open>delete(k)\<close> returns normally; the new root is an object \<open>m\<close> of \<open>L\<close> with the largest
  key of \<open>L\<close>, which is the in-order predecessor of \<open>k\<close>; its left subtree holds the other
  keys of \<open>L\<close>; and its right subtree is \<open>R\<close>, the same objects in the same shape.
\<close>

theorem splay_delete_join:
  assumes "(splay_run xs splay_init \<bind> splay_search k) = Some (True, s1)"
    and "splay_rep s1 (PNode L x k c R)" and "L \<noteq> PLeaf" and "R \<noteq> PLeaf"
  shows "\<exists>s' L' m. (splay_run xs splay_init \<bind> splay_delete k) = Some s'
     \<and> splay_rep s' (PNode L' m (Max (set (pkeys L))) c R)
     \<and> m \<in> set (paddrs L)
     \<and> Max (set (pkeys L)) = Max {j \<in> keys_after xs {}. j < k}
     \<and> pkeys L' = butlast (pkeys L)
     \<and> s_root s' = Some m \<and> s_right s' (s_root s') = Some (pptr R)"
proof -
  from splay_run_inv[OF splay_init_inv, of xs] obtain s t where
    st: "splay_run xs splay_init = Some s" "splay_inv s t" "set (pkeys t) = keys_after xs {}"
    by auto
  from st(2) have srt: "sorted_wrt (<) (pkeys t)" and rep: "splay_rep s t"
    by (simp_all add: splay_inv_def)
  from splay_search_rep[OF rep, of k] assms(1) st(1) have
    "splay_rep s1 (splay_found k t)" by auto
  from splay_rep_unique[OF this assms(2)] have t1: "splay_found k t = PNode L x k c R" .
  then have del: "splay_del k t = splay_join L R" by (simp add: splay_del_def)
  from t1 have keys: "pkeys t = pkeys L @ k # pkeys R" using splay_found_keys[of k t] by simp
  from splay_join_shape[OF assms(3,4)] obtain L' m c' where
    j: "splay_join L R = PNode L' m (last (pkeys L)) c' R" "paddrs L' @ [m] = paddrs L"
    "pkeys L' @ [last (pkeys L)] = pkeys L" by blast
  from srt keys have sL: "sorted_wrt (<) (pkeys L)" by (simp add: sorted_wrt_append)
  from assms(3) have ne: "pkeys L \<noteq> []" by simp
  note mx = sorted_last_Max[OF sL ne]
  from splay_delete_rep[OF rep, of k] obtain s' where
    s': "splay_delete k s = Some s'" "splay_rep s' (splay_del k t)" by blast
  from s'(2) del j(1) mx have rep': "splay_rep s' (PNode L' m (Max (set (pkeys L))) c R)" by simp
  from j(2) have m: "m \<in> set (paddrs L)" by (metis in_set_conv_decomp)
  from j(3) have bl: "pkeys L' = butlast (pkeys L)" by (metis butlast_snoc)
  from srt keys have "{j \<in> set (pkeys t). j < k} = set (pkeys L)"
    by (auto simp: sorted_mid)
  with st(3) have pred: "Max (set (pkeys L)) = Max {j \<in> keys_after xs {}. j < k}" by simp
  from rep' have "s_root s' = Some m" "s_right s' (s_root s') = Some (pptr R)"
    using stree_ptr[of "s_heap s'" _ "Some m" R]
    by (auto simp: splay_rep_def s_prims)
  with s' st(1) rep' m bl pred show ?thesis by auto
qed


theorem splay_delete_join_witness:
  "\<exists>s'. (splay_run [Insert 20, Insert 10, Insert 30] splay_init \<bind> splay_delete 20) = Some s'
     \<and> s_root s' = Some 1 \<and> s_right s' (s_root s') = Some (Some 2)
     \<and> s_key s' (s_root s') = Some 10"
proof -
  let ?X = "splay_run [Insert 20, Insert 10, Insert 30] splay_init \<bind> splay_search 20"
  let ?s1 = "snd (the ?X)"
  have k: "(20::int) \<in> keys_after [Insert 20, Insert 10, Insert 30] {}" by simp
  from splay_run_init[of "[Insert 20, Insert 10, Insert 30]"]
  obtain s t where st: "splay_run [Insert 20, Insert 10, Insert 30] splay_init = Some s"
    "splay_inv s t" "set (pkeys t) = keys_after [Insert 20, Insert 10, Insert 30] {}"
    by blast
  from splay_search_inv[OF st(2), of 20]
  obtain s1 where "splay_search 20 s = Some (20 \<in> set (pkeys t), s1)"
    by blast
  with st(1,3) k have "\<exists>s1. ?X = Some (True, s1)" by simp
  then have a: "?X = Some (True, ?s1)" by auto
  have b: "splay_rep ?s1 (PNode (PNode PLeaf 1 10 () PLeaf) 0 20 () (PNode PLeaf 2 30 () PLeaf))"
    by code_simp
  from splay_delete_join[OF a b]
  obtain s' L' m where r:
    "(splay_run [Insert 20, Insert 10, Insert 30] splay_init \<bind> splay_delete 20) = Some s'"
    "splay_rep s' (PNode L' m (Max (set (pkeys (PNode PLeaf 1 10 () PLeaf)))) ()
        (PNode PLeaf 2 30 () PLeaf))"
    "m \<in> set (paddrs (PNode PLeaf 1 10 () PLeaf))"
    "s_root s' = Some m"
    "s_right s' (s_root s') = Some (pptr (PNode PLeaf 2 30 () PLeaf))"
    by blast
  from r(3) have m: "m = 1" by simp
  from r(2) m have "s_key s' (s_root s') = Some 10"
    by (auto simp: splay_rep_def s_prims)
  with r m show ?thesis by simp
qed

end
